theory Spec2Isabelle
  imports Main
begin

section \<open>Strings and characters\<close>

text \<open>
  The program is \<^verbatim>\<open>html-normalize-headings.py\<close>. It works on Python \<^verbatim>\<open>str\<close> values:
  sequences of Unicode code points. A character is modelled as its code point (a natural
  number), a string as a list of code points. ASCII literals of the source are written
  \<open>ustr ''...''\<close>.
\<close>

type_synonym uchar = nat
type_synonym ustring = "nat list"

definition ustr :: "string \<Rightarrow> ustring" where
  "ustr s = map of_char s"

text \<open>
  Whitespace as \<^verbatim>\<open>str.strip()\<close> and the pattern \<^verbatim>\<open>\s\<close> of a \<^verbatim>\<open>str\<close> pattern see it
  (both use the Unicode whitespace property): U+0009..U+000D, U+001C..U+0020, U+0085,
  U+00A0, U+1680, U+2000..U+200A, U+2028, U+2029, U+202F, U+205F, U+3000.
\<close>

definition is_space :: "uchar \<Rightarrow> bool" where
  "is_space c =
     ((9 \<le> c \<and> c \<le> 13) \<or> (28 \<le> c \<and> c \<le> 32) \<or> c = 133 \<or> c = 160 \<or> c = 5760 \<or>
      (8192 \<le> c \<and> c \<le> 8202) \<or> c = 8232 \<or> c = 8233 \<or> c = 8239 \<or> c = 8287 \<or> c = 12288)"

text \<open>\<^verbatim>\<open>s.strip()\<close>: leading and trailing whitespace removed.\<close>

definition strip :: "ustring \<Rightarrow> ustring" where
  "strip s = rev (dropWhile is_space (rev (dropWhile is_space s)))"

text \<open>
  A literal character \<open>p\<close> of a pattern compiled with \<^verbatim>\<open>re.IGNORECASE\<close> against an input
  character \<open>c\<close>. The literals of this program are lower-case ASCII letters, digits and
  punctuation. A lower-case letter matches itself and its capital; in Unicode mode
  \<^verbatim>\<open>i\<close> also matches U+0130 and U+0131, \<^verbatim>\<open>k\<close> U+212A and \<^verbatim>\<open>s\<close> U+017F. Every
  other literal matches only itself.
\<close>

definition ci_match :: "uchar \<Rightarrow> uchar \<Rightarrow> bool" where
  "ci_match p c =
     (c = p \<or> (97 \<le> p \<and> p \<le> 122 \<and> c + 32 = p) \<or>
      (p = 105 \<and> (c = 304 \<or> c = 305)) \<or> (p = 107 \<and> c = 8490) \<or> (p = 115 \<and> c = 383))"

text \<open>
  A literal word of a case-insensitive pattern at the start of the input: the rest of the
  input after it, or \<open>None\<close>.
\<close>

fun lit_ci :: "ustring \<Rightarrow> ustring \<Rightarrow> ustring option" where
  "lit_ci [] s = Some s"
| "lit_ci (p # ps) [] = None"
| "lit_ci (p # ps) (c # cs) = (if ci_match p c then lit_ci ps cs else None)"

text \<open>
  \<^verbatim>\<open>re.search\<close>: the matcher \<open>m\<close> (one pattern, tried at the start of its argument) is tried
  at every position from the left; the result is the text before the first position where
  it succeeds, with what the matcher returned there.
\<close>

fun re_search :: "(ustring \<Rightarrow> 'a option) \<Rightarrow> ustring \<Rightarrow> (ustring \<times> 'a) option" where
  "re_search m [] = (case m [] of Some r \<Rightarrow> Some ([], r) | None \<Rightarrow> None)"
| "re_search m (c # cs) =
     (case m (c # cs) of
        Some r \<Rightarrow> Some ([], r)
      | None \<Rightarrow> (case re_search m cs of Some (pre, r) \<Rightarrow> Some (c # pre, r) | None \<Rightarrow> None))"

text \<open>Decimal digits: \<^verbatim>\<open>int(d)\<close> of a one-digit string and \<^verbatim>\<open>str(n)\<close> of an integer.\<close>

definition int_of_digit :: "uchar \<Rightarrow> nat" where
  "int_of_digit d = d - 48"

fun str_of_nat :: "nat \<Rightarrow> ustring" where
  "str_of_nat n = (if n < 10 then [48 + n] else str_of_nat (n div 10) @ [48 + n mod 10])"

declare str_of_nat.simps [simp del]

section \<open>shift_headings\<close>

text \<open>
  The pattern \<^verbatim>\<open><(/?)h([1-6])([^>]*)>\<close> with \<^verbatim>\<open>re.IGNORECASE\<close>, tried at the start of \<open>s\<close>.
  \<open>heading_prefix\<close> is the part \<^verbatim>\<open><(/?)h([1-6])\<close>: it returns group 1 (\<^verbatim>\<open>/\<close> or empty),
  group 2 (the digit) and the rest of the input. The optional slash is taken when it is
  there; without it the next character would have to be both \<^verbatim>\<open>/\<close> and \<^verbatim>\<open>h\<close>, so
  backtracking finds nothing more. \<^verbatim>\<open>[^>]*\<close> takes every character up to the first \<^verbatim>\<open>>\<close>,
  which the pattern needs next; giving characters back cannot help, none of them is \<^verbatim>\<open>>\<close>.
  \<open>match_heading\<close> returns the three groups and the input after the match.
  The code points written as numbers are 60 for \<^verbatim>\<open><\<close>, 62 for \<^verbatim>\<open>>\<close>, 47 for \<^verbatim>\<open>/\<close>,
  104 for \<^verbatim>\<open>h\<close>, 49 to 54 for the digits 1 to 6, and 10 for the newline.
  The inner function \<^verbatim>\<open>replace_heading\<close> of lines 36 to 48 is never called: the program
  runs the replacement of line 52.
\<close>

definition heading_prefix :: "ustring \<Rightarrow> (ustring \<times> uchar \<times> ustring) option" where
  "heading_prefix s =
     (case s of
        [] \<Rightarrow> None
      | c # r \<Rightarrow>
          if c \<noteq> 60 then None
          else
            (let (g1, r1) = (case r of [] \<Rightarrow> ([], r) | x # r' \<Rightarrow> if x = 47 then ([47], r') else ([], r))
             in case r1 of
                  h # d # r2 \<Rightarrow> if ci_match 104 h \<and> 49 \<le> d \<and> d \<le> 54 then Some (g1, d, r2) else None
                | _ \<Rightarrow> None))"

definition match_heading :: "ustring \<Rightarrow> ((ustring \<times> uchar \<times> ustring) \<times> ustring) option" where
  "match_heading s =
     (case heading_prefix s of
        None \<Rightarrow> None
      | Some (g1, g2, r) \<Rightarrow>
          (case dropWhile (\<lambda>x. x \<noteq> 62) r of
             [] \<Rightarrow> None
           | gt # rest \<Rightarrow> Some ((g1, g2, takeWhile (\<lambda>x. x \<noteq> 62) r), rest)))"

text \<open>
  The replacement function of line 52:
  \<^verbatim>\<open>f'<{m.group(1)}h{min(int(m.group(2))+1, 6)}{m.group(3) if not m.group(1) else ""}>'\<close>.
\<close>

definition replacement :: "ustring \<times> uchar \<times> ustring \<Rightarrow> ustring" where
  "replacement g =
     (case g of (g1, g2, g3) \<Rightarrow>
        [60] @ g1 @ [104] @ str_of_nat (min (int_of_digit g2 + 1) 6) @ (if g1 = [] then g3 else []) @ [62])"

lemma heading_prefix_shorter:
  "heading_prefix s = Some (g1, g2, r) \<Longrightarrow> length r < length s"
  by (auto simp: heading_prefix_def split: list.splits if_splits)

lemma match_heading_shorter:
  "match_heading s = Some (g, rest) \<Longrightarrow> length rest < length s"
proof -
  assume a: "match_heading s = Some (g, rest)"
  then obtain g1 g2 r gt where p: "heading_prefix s = Some (g1, g2, r)"
    and d: "dropWhile (\<lambda>x. x \<noteq> 62) r = gt # rest"
    by (auto simp: match_heading_def split: option.splits list.splits)
  have "length (dropWhile (\<lambda>x. x \<noteq> 62) r) \<le> length r"
    by (rule length_dropWhile_le)
  with d have "length rest < length r" by simp
  with heading_prefix_shorter [OF p] show ?thesis by simp
qed

text \<open>
  \<^verbatim>\<open>re.sub(pattern, function, text)\<close> for this pattern, which never matches the empty
  string: where the pattern matches, the replacement is emitted and the scan goes on after
  the match; elsewhere the character is copied and the scan goes on at the next one.
\<close>

function shift_headings :: "ustring \<Rightarrow> ustring" where
  "shift_headings s =
     (case match_heading s of
        Some (g, rest) \<Rightarrow> replacement g @ shift_headings rest
      | None \<Rightarrow> (case s of [] \<Rightarrow> [] | c # cs \<Rightarrow> c # shift_headings cs))"
  by pat_completeness auto
termination
  by (relation "measure length") (auto dest: match_heading_shorter)

declare shift_headings.simps [simp del]


section \<open>extract_title and clean_title\<close>

text \<open>
  Line 59: \<^verbatim>\<open>re.split(r'\s*[-|\<dots>]\s+', title)[0].strip()\<close>, where the character class holds
  the hyphen (U+002D), the bar (U+007C), the en dash (U+2013) and the em dash (U+2014).
  The first element of the split is the text before the first match, or the whole string
  when nothing matches. \<^verbatim>\<open>\s*\<close> takes all the whitespace there is (a separator character is
  no whitespace, so giving some back cannot help), then come one separator character and at
  least one whitespace character.
\<close>

definition is_sep :: "uchar \<Rightarrow> bool" where
  "is_sep c = (c = 45 \<or> c = 124 \<or> c = 8211 \<or> c = 8212)"

definition match_sep :: "ustring \<Rightarrow> unit option" where
  "match_sep s =
     (case dropWhile is_space s of
        c # w # r \<Rightarrow> if is_sep c \<and> is_space w then Some () else None
      | _ \<Rightarrow> None)"

definition split_first :: "ustring \<Rightarrow> ustring" where
  "split_first s = (case re_search match_sep s of Some (pre, u) \<Rightarrow> pre | None \<Rightarrow> s)"

definition clean_title :: "ustring \<Rightarrow> ustring" where
  "clean_title title =
     (let title = strip (split_first title)
      in if title \<noteq> [] then title else ustr ''Untitled'')"

text \<open>
  Line 19: \<^verbatim>\<open><title>([^<]+)</title>\<close> with \<^verbatim>\<open>re.IGNORECASE\<close>; the result is group 1.
  \<^verbatim>\<open>[^<]+\<close> takes every character up to the first \<^verbatim>\<open><\<close> and needs at least one.
\<close>

definition match_title :: "ustring \<Rightarrow> ustring option" where
  "match_title s =
     (case lit_ci (ustr ''<title>'') s of
        None \<Rightarrow> None
      | Some r \<Rightarrow>
          (let g = takeWhile (\<lambda>x. x \<noteq> 60) r
           in if g = [] then None
              else (case lit_ci (ustr ''</title>'') (dropWhile (\<lambda>x. x \<noteq> 60) r) of
                      None \<Rightarrow> None
                    | Some r' \<Rightarrow> Some g)))"

text \<open>
  Line 26: \<^verbatim>\<open><h1[^>]*>(.*?)</h1>\<close> with \<^verbatim>\<open>re.DOTALL | re.IGNORECASE\<close>; the result is
  group 1. After the first \<^verbatim>\<open>>\<close> the lazy \<^verbatim>\<open>.*?\<close> (any character, newlines too) stops at the
  first place where \<^verbatim>\<open></h1>\<close> follows.
\<close>

definition match_h1 :: "ustring \<Rightarrow> ustring option" where
  "match_h1 s =
     (case lit_ci (ustr ''<h1'') s of
        None \<Rightarrow> None
      | Some r \<Rightarrow>
          (case dropWhile (\<lambda>x. x \<noteq> 62) r of
             [] \<Rightarrow> None
           | gt # r' \<Rightarrow>
               (case re_search (lit_ci (ustr ''</h1>'')) r' of
                  None \<Rightarrow> None
                | Some (g, r'') \<Rightarrow> Some g)))"

text \<open>
  Line 28: \<^verbatim>\<open>re.sub(r'<[^>]+>', '', s)\<close>. The pattern is \<^verbatim>\<open><\<close>, at least one character
  other than \<^verbatim>\<open>>\<close>, and \<^verbatim>\<open>>\<close>; \<open>match_tag\<close> returns the input after the match.
\<close>

definition match_tag :: "ustring \<Rightarrow> ustring option" where
  "match_tag s =
     (case s of
        [] \<Rightarrow> None
      | c # r \<Rightarrow>
          if c \<noteq> 60 \<or> takeWhile (\<lambda>x. x \<noteq> 62) r = [] then None
          else (case dropWhile (\<lambda>x. x \<noteq> 62) r of [] \<Rightarrow> None | gt # rest \<Rightarrow> Some rest))"

lemma match_tag_shorter:
  "match_tag s = Some rest \<Longrightarrow> length rest < length s"
proof -
  assume a: "match_tag s = Some rest"
  then obtain c r gt where s: "s = c # r" and d: "dropWhile (\<lambda>x. x \<noteq> 62) r = gt # rest"
    by (auto simp: match_tag_def split: list.splits if_splits)
  have "length (dropWhile (\<lambda>x. x \<noteq> 62) r) \<le> length r"
    by (rule length_dropWhile_le)
  with d s show ?thesis by simp
qed

function strip_tags :: "ustring \<Rightarrow> ustring" where
  "strip_tags s =
     (case match_tag s of
        Some rest \<Rightarrow> strip_tags rest
      | None \<Rightarrow> (case s of [] \<Rightarrow> [] | c # cs \<Rightarrow> c # strip_tags cs))"
  by pat_completeness auto
termination
  by (relation "measure length") (auto dest: match_tag_shorter)

declare strip_tags.simps [simp del]

text \<open>
  \<open>extract_title\<close>, lines 16 to 30. \<^verbatim>\<open>html.unescape\<close> is a function of Python's standard
  library, not of this repository: it is the parameter \<open>unescape\<close>, and every theorem holds
  for every such function. \<open>h1_fallback\<close> is lines 25 to 30.
\<close>

definition h1_fallback :: "ustring \<Rightarrow> ustring" where
  "h1_fallback text =
     (case re_search match_h1 text of
        Some (pre, g) \<Rightarrow> strip (strip_tags g)
      | None \<Rightarrow> ustr ''Untitled'')"

definition extract_title :: "(ustring \<Rightarrow> ustring) \<Rightarrow> ustring \<Rightarrow> ustring" where
  "extract_title unescape text =
     (case re_search match_title text of
        Some (pre, g) \<Rightarrow>
          (let title = clean_title (strip (unescape g))
           in if title \<noteq> [] \<and> title \<noteq> ustr ''Untitled'' then title else h1_fallback text)
      | None \<Rightarrow> h1_fallback text)"

section \<open>normalize\<close>

text \<open>
  \<^verbatim>\<open>html.escape(s)\<close> (with its default \<^verbatim>\<open>quote=True\<close>) is five calls of \<^verbatim>\<open>str.replace\<close> on a
  one-character pattern, the ampersand first.
\<close>

definition replace_char :: "uchar \<Rightarrow> ustring \<Rightarrow> ustring \<Rightarrow> ustring" where
  "replace_char c new s = concat (map (\<lambda>x. if x = c then new else [x]) s)"

definition html_escape :: "ustring \<Rightarrow> ustring" where
  "html_escape s =
     replace_char 39 (ustr ''&#x27;'')
       (replace_char 34 (ustr ''&quot;'')
          (replace_char 62 (ustr ''&gt;'')
             (replace_char 60 (ustr ''&lt;'')
                (replace_char 38 (ustr ''&amp;'') s))))"

text \<open>
  Line 71: \<^verbatim>\<open>(<body[^>]*>)\<close> with \<^verbatim>\<open>re.IGNORECASE\<close>; \<open>match_body\<close> returns the matched text and
  the input after it, so that \<^verbatim>\<open>m.end()\<close> is the length of the text before the match plus
  the length of the match.
\<close>

definition match_body :: "ustring \<Rightarrow> (ustring \<times> ustring) option" where
  "match_body s =
     (case lit_ci (ustr ''<body'') s of
        None \<Rightarrow> None
      | Some r \<Rightarrow>
          (case dropWhile (\<lambda>x. x \<noteq> 62) r of
             [] \<Rightarrow> None
           | gt # rest \<Rightarrow> Some (take (length s - length rest) s, rest)))"

text \<open>
  Line 64: the title. \<^verbatim>\<open>title_override\<close> is \<^verbatim>\<open>None\<close> or a string, and the test
  \<^verbatim>\<open>if title_override\<close> fails for both \<^verbatim>\<open>None\<close> and the empty string.
\<close>

definition resolve_title :: "(ustring \<Rightarrow> ustring) \<Rightarrow> ustring \<Rightarrow> ustring option \<Rightarrow> ustring" where
  "resolve_title unescape text title_override =
     (case title_override of
        None \<Rightarrow> extract_title unescape text
      | Some t \<Rightarrow> if t \<noteq> [] then clean_title t else extract_title unescape text)"

text \<open>
  Line 70, the title element: \<^verbatim>\<open>f'<h1>{html.escape(title)}</h1>\n'\<close>. Lines 71 to 78:
  it is inserted into the shifted text, after the first body tag (\<^verbatim>\<open>text[:pos]\<close> is the text
  before the match and the match) or at the start.
\<close>

definition title_html :: "ustring \<Rightarrow> ustring" where
  "title_html title = ustr ''<h1>'' @ html_escape title @ ustr ''</h1>'' @ [10]"

definition insert_title :: "ustring \<Rightarrow> ustring \<Rightarrow> ustring" where
  "insert_title text title =
     (case re_search match_body text of
        Some (pre, tag, rest) \<Rightarrow> (pre @ tag) @ [10] @ title_html title @ rest
      | None \<Rightarrow> title_html title @ text)"

definition normalize :: "(ustring \<Rightarrow> ustring) \<Rightarrow> ustring \<Rightarrow> ustring option \<Rightarrow> ustring" where
  "normalize unescape text title_override =
     (let title = resolve_title unescape text title_override;
          text = shift_headings text
      in insert_title text title)"

section \<open>Heading tags of a document\<close>

text \<open>
  The heading tags of a document are the occurrences of the pattern of \<open>shift_headings\<close>,
  found from left to right as \<^verbatim>\<open>re.finditer\<close> finds them: each with its closing flag, its
  level and its attribute text. \<open>text_segments\<close> is the text between them
  (\<^verbatim>\<open>re.split\<close> on the same pattern, without its groups): one segment before each tag
  and one after the last.
\<close>

record heading_tag =
  closing :: bool
  level :: nat
  attrs :: ustring

definition tag_of :: "ustring \<times> uchar \<times> ustring \<Rightarrow> heading_tag" where
  "tag_of g = (case g of (g1, g2, g3) \<Rightarrow> \<lparr>closing = (g1 \<noteq> []), level = int_of_digit g2, attrs = g3\<rparr>)"

function headings :: "ustring \<Rightarrow> heading_tag list" where
  "headings s =
     (case match_heading s of
        Some (g, rest) \<Rightarrow> tag_of g # headings rest
      | None \<Rightarrow> (case s of [] \<Rightarrow> [] | c # cs \<Rightarrow> headings cs))"
  by pat_completeness auto
termination
  by (relation "measure length") (auto dest: match_heading_shorter)

declare headings.simps [simp del]

function text_segments :: "ustring \<Rightarrow> ustring list" where
  "text_segments s =
     (case match_heading s of
        Some (g, rest) \<Rightarrow> [] # text_segments rest
      | None \<Rightarrow>
          (case s of
             [] \<Rightarrow> [[]]
           | c # cs \<Rightarrow> (case text_segments cs of [] \<Rightarrow> [[c]] | seg # segs \<Rightarrow> (c # seg) # segs)))"
  by pat_completeness auto
termination
  by (relation "measure length") (auto dest: match_heading_shorter)

declare text_segments.simps [simp del]

text \<open>What the specification says a shifted tag is.\<close>

definition shift_tag :: "heading_tag \<Rightarrow> heading_tag" where
  "shift_tag t = \<lparr>closing = closing t, level = min (level t + 1) 6,
                  attrs = (if closing t then [] else attrs t)\<rparr>"

text \<open>A tag written out: \<^verbatim>\<open><\<close>, the slash of a closing tag, \<^verbatim>\<open>h\<close>, the level, the attribute text, \<^verbatim>\<open>>\<close>.\<close>

definition emit_tag :: "heading_tag \<Rightarrow> ustring" where
  "emit_tag t = [60] @ (if closing t then [47] else []) @ [104] @ str_of_nat (level t) @ attrs t @ [62]"

text \<open>The two tags of the inserted title element, \<^verbatim>\<open><h1>\<close> and \<^verbatim>\<open></h1>\<close>.\<close>

definition h1_open :: heading_tag where
  "h1_open = \<lparr>closing = False, level = 1, attrs = []\<rparr>"

definition h1_close :: heading_tag where
  "h1_close = \<lparr>closing = True, level = 1, attrs = []\<rparr>"

text \<open>
  An opening body tag as the pattern of line 71 reads it: \<^verbatim>\<open><body\<close> in any case, then
  characters other than \<^verbatim>\<open>>\<close>, then the first \<^verbatim>\<open>>\<close>.
\<close>

definition is_body_tag :: "ustring \<Rightarrow> bool" where
  "is_body_tag t =
     (case lit_ci (ustr ''<body'') t of
        None \<Rightarrow> False
      | Some r \<Rightarrow> r \<noteq> [] \<and> last r = 62 \<and> 62 \<notin> set (butlast r))"


text \<open>
  A string has an occurrence of the separator pattern of line 59 when \<^verbatim>\<open>re.search\<close> finds
  one.
\<close>

definition has_separator :: "ustring \<Rightarrow> bool" where
  "has_separator s = (re_search match_sep s \<noteq> None)"

text \<open>
  What the specification calls the first title element and the first \<^verbatim>\<open><h1>\<close> element, written
  out on the text itself. A match of the title pattern at the place \<open>pre\<close> is \<^verbatim>\<open><title>\<close> in any
  case and without attributes, a non-empty content \<open>g\<close> without \<^verbatim>\<open><\<close>, and \<^verbatim>\<open></title>\<close>; the
  first match is the leftmost one.
\<close>

definition title_match :: "ustring \<Rightarrow> ustring \<Rightarrow> ustring \<Rightarrow> bool" where
  "title_match text pre g \<longleftrightarrow>
     (\<exists>ot ct rest. text = pre @ ot @ g @ ct @ rest \<and> list_all2 ci_match (ustr ''<title>'') ot \<and>
        g \<noteq> [] \<and> 60 \<notin> set g \<and> list_all2 ci_match (ustr ''</title>'') ct)"

definition first_title :: "ustring \<Rightarrow> ustring \<Rightarrow> ustring \<Rightarrow> bool" where
  "first_title text pre g \<longleftrightarrow>
     title_match text pre g \<and> (\<forall>pre' g'. title_match text pre' g' \<longrightarrow> length pre \<le> length pre')"

text \<open>
  A match of the \<^verbatim>\<open><h1>\<close> pattern at the place \<open>pre\<close> is \<^verbatim>\<open><h1\<close> in any case, the attribute text
  \<open>a\<close> up to the first \<^verbatim>\<open>>\<close>, and the content \<open>g\<close> up to the first \<^verbatim>\<open></h1>\<close> after it.
\<close>

definition h1_match :: "ustring \<Rightarrow> ustring \<Rightarrow> ustring \<Rightarrow> ustring \<Rightarrow> bool" where
  "h1_match text pre a g \<longleftrightarrow>
     (\<exists>oh ch rest. text = pre @ oh @ a @ [62] @ g @ ch @ rest \<and> list_all2 ci_match (ustr ''<h1'') oh \<and>
        62 \<notin> set a \<and> list_all2 ci_match (ustr ''</h1>'') ch \<and>
        (\<forall>p c q. g @ ch @ rest = p @ c @ q \<and> list_all2 ci_match (ustr ''</h1>'') c \<longrightarrow> length g \<le> length p))"

definition first_h1 :: "ustring \<Rightarrow> ustring \<Rightarrow> ustring \<Rightarrow> ustring \<Rightarrow> bool" where
  "first_h1 text pre a g \<longleftrightarrow>
     h1_match text pre a g \<and> (\<forall>pre' a' g'. h1_match text pre' a' g' \<longrightarrow> length pre \<le> length pre')"

text \<open>
  The name of a tag ends where the text after it is empty (the \<^verbatim>\<open>>\<close> follows) or starts with
  whitespace (tab, line feed, form feed, carriage return, space) or with a slash. A match of
  a pattern that opens with \<^verbatim>\<open><h1\<close> is a tag named \<^verbatim>\<open>h1\<close> when its attribute text is such a
  text; \<^verbatim>\<open><h10>\<close> and \<^verbatim>\<open><h1-card>\<close> are tags of another name.
\<close>

definition name_ends :: "ustring \<Rightarrow> bool" where
  "name_ends a = (case a of [] \<Rightarrow> True | c # r \<Rightarrow> c = 9 \<or> c = 10 \<or> c = 12 \<or> c = 13 \<or> c = 32 \<or> c = 47)"

text \<open>A property of every suffix of a string, the empty one too: of every place in a document.\<close>

fun all_suffixes :: "(ustring \<Rightarrow> bool) \<Rightarrow> ustring \<Rightarrow> bool" where
  "all_suffixes P [] = P []"
| "all_suffixes P (c # cs) = (P (c # cs) \<and> all_suffixes P cs)"

section \<open>Evaluation on concrete inputs\<close>

text \<open>The defining equations, for the simplifier to run the program on a given input.\<close>

lemmas eval_defs = ustr_def is_space_def is_sep_def ci_match_def strip_def clean_title_def split_first_def
  match_sep_def has_separator_def Let_def heading_prefix_def match_heading_def replacement_def
  int_of_digit_def str_of_nat.simps match_title_def match_h1_def match_tag_def h1_fallback_def
  extract_title_def replace_char_def html_escape_def match_body_def resolve_title_def title_html_def
  insert_title_def normalize_def tag_of_def is_body_tag_def
  shift_headings.simps strip_tags.simps headings.simps text_segments.simps


section \<open>The matchers\<close>

lemma ci_match_h: "ci_match 104 h \<longleftrightarrow> h = 104 \<or> h = 72"
  by (auto simp: ci_match_def)

lemma heading_prefix_Some_iff:
  "heading_prefix s = Some (g1, g2, r) \<longleftrightarrow>
     (\<exists>h. s = 60 # g1 @ h # g2 # r \<and> (g1 = [] \<or> g1 = [47]) \<and> ci_match 104 h \<and> 49 \<le> g2 \<and> g2 \<le> 54)"
  by (auto simp: heading_prefix_def ci_match_h split: list.splits if_splits)

lemma dropWhile_eq_Cons_iff:
  "dropWhile (\<lambda>x. x \<noteq> a) r = y # rest \<longleftrightarrow> y = a \<and> r = takeWhile (\<lambda>x. x \<noteq> a) r @ a # rest"
proof
  assume d: "dropWhile (\<lambda>x. x \<noteq> a) r = y # rest"
  then have "y = a" using hd_dropWhile [of "\<lambda>x. x \<noteq> a" r] by auto
  moreover have "r = takeWhile (\<lambda>x. x \<noteq> a) r @ dropWhile (\<lambda>x. x \<noteq> a) r" by simp
  ultimately show "y = a \<and> r = takeWhile (\<lambda>x. x \<noteq> a) r @ a # rest" using d by simp
next
  assume a: "y = a \<and> r = takeWhile (\<lambda>x. x \<noteq> a) r @ a # rest"
  then have "dropWhile (\<lambda>x. x \<noteq> a) r = dropWhile (\<lambda>x. x \<noteq> a) (takeWhile (\<lambda>x. x \<noteq> a) r @ a # rest)"
    by simp
  also have "\<dots> = a # rest"
    by (subst dropWhile_append2) (auto dest: set_takeWhileD)
  finally show "dropWhile (\<lambda>x. x \<noteq> a) r = y # rest" using a by simp
qed

lemma span_unique:
  "a \<notin> set g \<Longrightarrow> takeWhile (\<lambda>x. x \<noteq> a) (g @ a # rest) = g \<and> dropWhile (\<lambda>x. x \<noteq> a) (g @ a # rest) = a # rest"
  by (induction g) auto

lemma match_heading_Some_iff:
  "match_heading s = Some ((g1, g2, g3), rest) \<longleftrightarrow>
     (\<exists>h. s = 60 # g1 @ h # g2 # g3 @ 62 # rest \<and> (g1 = [] \<or> g1 = [47]) \<and> ci_match 104 h \<and>
          49 \<le> g2 \<and> g2 \<le> 54 \<and> 62 \<notin> set g3)"
proof
  assume "match_heading s = Some ((g1, g2, g3), rest)"
  then obtain r y where p: "heading_prefix s = Some (g1, g2, r)"
    and d: "dropWhile (\<lambda>x. x \<noteq> 62) r = y # rest" and g3: "g3 = takeWhile (\<lambda>x. x \<noteq> 62) r"
    by (auto simp: match_heading_def split: option.splits list.splits)
  from d g3 have r: "r = g3 @ 62 # rest" by (simp add: dropWhile_eq_Cons_iff)
  have "62 \<notin> set g3" unfolding g3 by (auto dest: set_takeWhileD)
  with p r show "\<exists>h. s = 60 # g1 @ h # g2 # g3 @ 62 # rest \<and> (g1 = [] \<or> g1 = [47]) \<and> ci_match 104 h \<and>
          49 \<le> g2 \<and> g2 \<le> 54 \<and> 62 \<notin> set g3"
    by (auto simp: heading_prefix_Some_iff)
next
  assume "\<exists>h. s = 60 # g1 @ h # g2 # g3 @ 62 # rest \<and> (g1 = [] \<or> g1 = [47]) \<and> ci_match 104 h \<and>
          49 \<le> g2 \<and> g2 \<le> 54 \<and> 62 \<notin> set g3"
  then obtain h where s: "s = 60 # g1 @ h # g2 # g3 @ 62 # rest" and g1: "g1 = [] \<or> g1 = [47]"
    and h: "ci_match 104 h" and g2: "49 \<le> g2" "g2 \<le> 54" and g3: "62 \<notin> set g3" by blast
  have "heading_prefix s = Some (g1, g2, g3 @ 62 # rest)"
    using s g1 h g2 by (subst heading_prefix_Some_iff) blast
  then show "match_heading s = Some ((g1, g2, g3), rest)"
    using span_unique [OF g3, of rest] by (simp add: match_heading_def)
qed

lemma match_heading_Some_iff':
  "match_heading s = Some (g, rest) \<longleftrightarrow>
     (\<exists>h. s = 60 # fst g @ h # fst (snd g) # snd (snd g) @ 62 # rest \<and> (fst g = [] \<or> fst g = [47]) \<and> ci_match 104 h \<and>
          49 \<le> fst (snd g) \<and> fst (snd g) \<le> 54 \<and> 62 \<notin> set (snd (snd g)))"
  using match_heading_Some_iff [of s "fst g" "fst (snd g)" "snd (snd g)" rest] by simp

lemma match_heading_append:
  "match_heading s = Some (g, rest) \<Longrightarrow> match_heading (s @ x) = Some (g, rest @ x)"
  unfolding match_heading_Some_iff' by auto

lemma match_heading_not_lt: "c \<noteq> 60 \<Longrightarrow> match_heading (c # s) = None"
  by (simp add: match_heading_def heading_prefix_def)

lemma match_heading_Nil: "match_heading [] = None"
  by (simp add: match_heading_def heading_prefix_def)


lemma shift_headings_Nil: "shift_headings [] = []"
  by (simp add: shift_headings.simps [of "[]"] match_heading_Nil)

lemma shift_headings_None:
  "match_heading (c # cs) = None \<Longrightarrow> shift_headings (c # cs) = c # shift_headings cs"
  by (simp add: shift_headings.simps [of "c # cs"])

lemma shift_headings_Some:
  "match_heading s = Some (g, rest) \<Longrightarrow> shift_headings s = replacement g @ shift_headings rest"
  by (simp add: shift_headings.simps [of s])

lemma headings_Nil: "headings [] = []"
  by (simp add: headings.simps [of "[]"] match_heading_Nil)

lemma headings_None:
  "match_heading (c # cs) = None \<Longrightarrow> headings (c # cs) = headings cs"
  by (simp add: headings.simps [of "c # cs"])

lemma headings_Some:
  "match_heading s = Some (g, rest) \<Longrightarrow> headings s = tag_of g # headings rest"
  by (simp add: headings.simps [of s])

lemma replacement_form:
  assumes "49 \<le> g2" "g2 \<le> 54"
  shows "replacement (g1, g2, g3) =
           60 # g1 @ 104 # (48 + min (g2 - 48 + 1) 6) # (if g1 = [] then g3 else []) @ [62]"
  using assms by (simp add: replacement_def int_of_digit_def str_of_nat.simps)

lemma match_heading_replacement:
  assumes "match_heading s = Some (g, rest)"
  shows "match_heading (replacement g @ x) =
           Some ((fst g, 48 + min (int_of_digit (fst (snd g)) + 1) 6,
                  if fst g = [] then snd (snd g) else []), x)"
proof -
  obtain g1 g2 g3 where g: "g = (g1, g2, g3)" by (cases g) auto
  from assms g have v: "g1 = [] \<or> g1 = [47]" "49 \<le> g2" "g2 \<le> 54" "62 \<notin> set g3"
    by (auto simp: match_heading_Some_iff)
  have "match_heading (replacement (g1, g2, g3) @ x) =
          Some ((g1, 48 + min (g2 - 48 + 1) 6, if g1 = [] then g3 else []), x)"
    unfolding match_heading_Some_iff replacement_form [OF v(2,3)]
    using v by (intro exI [of _ 104]) (auto simp: ci_match_h)
  then show ?thesis by (simp add: g int_of_digit_def)
qed

lemma tag_of_shifted:
  assumes "match_heading s = Some (g, rest)"
  shows "tag_of (fst g, 48 + min (int_of_digit (fst (snd g)) + 1) 6,
                 if fst g = [] then snd (snd g) else []) = shift_tag (tag_of g)"
  by (cases g) (auto simp: tag_of_def shift_tag_def int_of_digit_def)

lemma gt_in_match:
  "match_heading s = Some (g, rest) \<Longrightarrow> 62 \<in> set s"
  unfolding match_heading_Some_iff' by auto

lemma gt_in_replacement: "62 \<in> set (replacement g)"
  by (cases g) (simp add: replacement_def)

lemma gt_in_shift: "62 \<in> set (shift_headings s) \<longleftrightarrow> 62 \<in> set s"
proof (induction s rule: shift_headings.induct)
  case (1 s)
  show ?case
  proof (cases "match_heading s")
    case None
    show ?thesis
    proof (cases s)
      case Nil
      then show ?thesis by (simp add: shift_headings_Nil)
    next
      case (Cons c cs)
      with None 1(1) [OF None Cons] show ?thesis
        by (simp add: shift_headings_None)
    qed
  next
    case (Some a)
    obtain g rest where a: "a = (g, rest)" by (cases a) auto
    from Some a have "62 \<in> set s" by (auto dest: gt_in_match)
    moreover have "62 \<in> set (shift_headings s)"
      using Some a gt_in_replacement [of g] by (simp add: shift_headings_Some)
    ultimately show ?thesis by simp
  qed
qed

lemma replacement_starts_lt: "\<exists>r. replacement g = 60 # r"
  by (cases g) (simp add: replacement_def)

lemma shift_Cons_not_lt:
  assumes "shift_headings s = x # r'" "x \<noteq> 60"
  shows "\<exists>r. s = x # r \<and> r' = shift_headings r"
proof (cases "match_heading s")
  case None
  with assms show ?thesis
    by (cases s) (auto simp: shift_headings_None shift_headings_Nil)
next
  case (Some a)
  obtain g rest where a: "a = (g, rest)" by (cases a) auto
  obtain q where "replacement g = 60 # q" using replacement_starts_lt by blast
  with Some a assms show ?thesis by (simp add: shift_headings_Some)
qed

lemma heading_prefix_shift:
  assumes "heading_prefix (60 # shift_headings cs) = Some (g1, g2, r')"
  shows "\<exists>r. heading_prefix (60 # cs) = Some (g1, g2, r) \<and> r' = shift_headings r"
proof -
  from assms obtain h where e: "shift_headings cs = g1 @ h # g2 # r'"
    and v: "g1 = [] \<or> g1 = [47]" "ci_match 104 h" "49 \<le> g2" "g2 \<le> 54"
    by (auto simp: heading_prefix_Some_iff)
  from v(2) have h: "h \<noteq> 60" by (auto simp: ci_match_h)
  from v(3,4) have g2: "g2 \<noteq> 60" by simp
  have "\<exists>r. cs = g1 @ h # g2 # r \<and> r' = shift_headings r"
  proof (cases "g1 = []")
    case True
    with e have "shift_headings cs = h # g2 # r'" by simp
    from shift_Cons_not_lt [OF this h] obtain c1 where c1: "cs = h # c1" "g2 # r' = shift_headings c1"
      by blast
    from shift_Cons_not_lt [OF c1(2) [symmetric] g2] c1(1) True show ?thesis by auto
  next
    case False
    with v(1) have g1: "g1 = [47]" by simp
    with e have "shift_headings cs = 47 # h # g2 # r'" by simp
    from shift_Cons_not_lt [OF this] obtain c0 where c0: "cs = 47 # c0" "h # g2 # r' = shift_headings c0"
      by auto
    from shift_Cons_not_lt [OF c0(2) [symmetric] h] obtain c1 where c1: "c0 = h # c1" "g2 # r' = shift_headings c1"
      by blast
    from shift_Cons_not_lt [OF c1(2) [symmetric] g2] c1(1) c0(1) g1 show ?thesis by auto
  qed
  then obtain r where "cs = g1 @ h # g2 # r" "r' = shift_headings r" by blast
  with v show ?thesis by (auto simp: heading_prefix_Some_iff)
qed

lemma match_heading_None_shift:
  assumes "match_heading (c # cs) = None"
  shows "match_heading (c # shift_headings cs) = None"
proof (cases "c = 60")
  case False
  then show ?thesis by (rule match_heading_not_lt)
next
  case True
  show ?thesis
  proof (rule ccontr)
    assume "match_heading (c # shift_headings cs) \<noteq> None"
    then obtain g1 g2 g3 rest where m: "match_heading (60 # shift_headings cs) = Some ((g1, g2, g3), rest)"
      using True by auto
    then have p: "heading_prefix (60 # shift_headings cs) = Some (g1, g2, g3 @ 62 # rest)"
      unfolding match_heading_Some_iff heading_prefix_Some_iff by auto
    from heading_prefix_shift [OF p] obtain r where r: "heading_prefix (60 # cs) = Some (g1, g2, r)"
      "g3 @ 62 # rest = shift_headings r" by blast
    have "62 \<in> set (shift_headings r)" unfolding r(2) [symmetric] by simp
    then have "62 \<in> set r" by (simp add: gt_in_shift)
    then obtain y ys where "dropWhile (\<lambda>x. x \<noteq> 62) r = y # ys"
      by (cases "dropWhile (\<lambda>x. x \<noteq> 62) r") (auto simp: dropWhile_eq_Nil_conv)
    with r(1) True have "match_heading (c # cs) \<noteq> None"
      by (simp add: match_heading_def)
    with assms show False by simp
  qed
qed

lemma headings_shift: "headings (shift_headings s) = map shift_tag (headings s)"
proof (induction s rule: shift_headings.induct)
  case (1 s)
  show ?case
  proof (cases "match_heading s")
    case None
    show ?thesis
    proof (cases s)
      case Nil
      then show ?thesis
        by (simp add: shift_headings_Nil headings_Nil)
    next
      case (Cons c cs)
      from None Cons have n: "match_heading (c # shift_headings cs) = None"
        by (simp add: match_heading_None_shift)
      have "headings (shift_headings s) = headings (c # shift_headings cs)"
        using None Cons by (simp add: shift_headings_None)
      also have "\<dots> = headings (shift_headings cs)"
        using n by (simp add: headings_None)
      also have "\<dots> = map shift_tag (headings cs)" by (rule 1(1) [OF None Cons])
      also have "\<dots> = map shift_tag (headings s)"
        using None Cons by (simp add: headings_None)
      finally show ?thesis .
    qed
  next
    case (Some a)
    obtain g rest where a: "a = (g, rest)" by (cases a) auto
    have m: "match_heading s = Some (g, rest)" using Some a by simp
    have "headings (shift_headings s) = headings (replacement g @ shift_headings rest)"
      using m by (simp add: shift_headings_Some)
    also have "\<dots> = shift_tag (tag_of g) # headings (shift_headings rest)"
      using headings_Some [OF match_heading_replacement [OF m, of "shift_headings rest"]]
        tag_of_shifted [OF m] by simp
    also have "\<dots> = shift_tag (tag_of g) # map shift_tag (headings rest)"
      using 1(2) [OF Some a [symmetric]] by simp
    also have "\<dots> = map shift_tag (headings s)"
      using m by (simp add: headings_Some)
    finally show ?thesis .
  qed
qed

lemma text_segments_Nil: "text_segments [] = [[]]"
  by (simp add: text_segments.simps [of "[]"] match_heading_Nil)

lemma text_segments_None:
  "match_heading (c # cs) = None \<Longrightarrow>
     text_segments (c # cs) = (case text_segments cs of [] \<Rightarrow> [[c]] | seg # segs \<Rightarrow> (c # seg) # segs)"
  by (simp add: text_segments.simps [of "c # cs"])

lemma text_segments_Some:
  "match_heading s = Some (g, rest) \<Longrightarrow> text_segments s = [] # text_segments rest"
  by (simp add: text_segments.simps [of s])

lemma match_heading_None_append:
  assumes n: "match_heading s = None" and l: "s \<noteq> []" "last s = 62"
  shows "match_heading (s @ x) = None"
proof (rule ccontr)
  assume "match_heading (s @ x) \<noteq> None"
  then obtain g1 g2 g3 rest where m: "match_heading (s @ x) = Some ((g1, g2, g3), rest)" by auto
  then obtain h where e: "s @ x = 60 # g1 @ h # g2 # g3 @ 62 # rest"
    and v: "g1 = [] \<or> g1 = [47]" "ci_match 104 h" "49 \<le> g2" "g2 \<le> 54" "62 \<notin> set g3"
    unfolding match_heading_Some_iff by blast
  let ?p = "60 # g1 @ h # g2 # g3"
  have p: "62 \<notin> set ?p" using v by (auto simp: ci_match_h)
  from l have s62: "62 \<in> set s" using last_in_set by metis
  have "takeWhile (\<lambda>x. x \<noteq> 62) (s @ x) = takeWhile (\<lambda>x. x \<noteq> 62) s"
    using s62 by (simp add: takeWhile_append1)
  moreover have "takeWhile (\<lambda>x. x \<noteq> 62) (?p @ 62 # rest) = ?p"
    using span_unique [OF p] by blast
  ultimately have t: "takeWhile (\<lambda>x. x \<noteq> 62) s = ?p" using e by simp
  obtain y ys where d: "dropWhile (\<lambda>x. x \<noteq> 62) s = y # ys"
    using s62 by (cases "dropWhile (\<lambda>x. x \<noteq> 62) s") (auto simp: dropWhile_eq_Nil_conv)
  then have "s = ?p @ 62 # ys" using t by (simp add: dropWhile_eq_Cons_iff)
  then have "match_heading s = Some ((g1, g2, g3), ys)"
    unfolding match_heading_Some_iff using v by auto
  with n show False by simp
qed

lemma match_rest_last:
  assumes "match_heading s = Some (g, rest)" "last s = 62" "rest \<noteq> []"
  shows "last rest = 62"
  using assms unfolding match_heading_Some_iff' by auto

lemma headings_append:
  "s = [] \<or> last s = 62 \<Longrightarrow> headings (s @ x) = headings s @ headings x"
proof (induction s rule: headings.induct)
  case (1 s)
  show ?case
  proof (cases "match_heading s")
    case None
    show ?thesis
    proof (cases s)
      case Nil
      then show ?thesis by (simp add: headings_Nil)
    next
      case (Cons c cs)
      with 1(3) have l: "last s = 62" "s \<noteq> []" by auto
      then have cs: "cs = [] \<or> last cs = 62" using Cons by (auto split: if_splits)
      have "match_heading (c # cs @ x) = None"
        using match_heading_None_append [OF None l(2,1), of x] Cons by simp
      then have "headings (s @ x) = headings (cs @ x)"
        using Cons by (simp add: headings_None)
      also have "\<dots> = headings cs @ headings x" by (rule 1(1) [OF None Cons cs])
      also have "headings cs = headings s" using None Cons by (simp add: headings_None)
      finally show ?thesis .
    qed
  next
    case (Some a)
    obtain g rest where a: "a = (g, rest)" by (cases a) auto
    have m: "match_heading s = Some (g, rest)" using Some a by simp
    then have "s \<noteq> []" by (auto simp: match_heading_Nil)
    with 1(3) have l: "last s = 62" by simp
    have r: "rest = [] \<or> last rest = 62" using match_rest_last [OF m l] by blast
    have "headings (s @ x) = tag_of g # headings (rest @ x)"
      by (rule headings_Some [OF match_heading_append [OF m]])
    also have "headings (rest @ x) = headings rest @ headings x"
      by (rule 1(2) [OF Some a [symmetric] r])
    finally show ?thesis using m by (simp add: headings_Some)
  qed
qed

lemma headings_no_lt: "60 \<notin> set e \<Longrightarrow> headings (e @ x) = headings x"
  by (induction e) (auto simp: headings_None match_heading_not_lt)

lemma set_replace_char:
  "set (replace_char c new s) = (set s - {c}) \<union> (if c \<in> set s then set new else {})"
  by (induction s) (auto simp: replace_char_def)

lemma html_escape_no_lt: "60 \<notin> set (html_escape t)"
  by (auto simp: html_escape_def set_replace_char ustr_def)

lemma headings_title_html:
  assumes "60 \<notin> set e"
  shows "headings (ustr ''<h1>'' @ e @ ustr ''</h1>'' @ [10] @ x) = [h1_open, h1_close] @ headings x"
proof -
  have o: "match_heading (ustr ''<h1>'' @ e @ ustr ''</h1>'' @ [10] @ x)
             = Some (([], 49, []), e @ ustr ''</h1>'' @ [10] @ x)"
    unfolding match_heading_Some_iff by (simp add: ustr_def ci_match_h)
  have c: "match_heading (ustr ''</h1>'' @ [10] @ x) = Some (([47], 49, []), [10] @ x)"
    unfolding match_heading_Some_iff by (simp add: ustr_def ci_match_h)
  have "headings ([10] @ x) = headings x"
    by (rule headings_no_lt) simp
  then show ?thesis
    using headings_Some [OF o] headings_Some [OF c] headings_no_lt [OF assms, of "ustr ''</h1>'' @ [10] @ x"]
    by (simp add: tag_of_def h1_open_def h1_close_def int_of_digit_def)
qed

lemma re_search_SomeD:
  "re_search m s = Some (pre, r) \<Longrightarrow>
     (\<exists>suf. s = pre @ suf \<and> m suf = Some r) \<and> (\<forall>p q. s = p @ q \<and> length p < length pre \<longrightarrow> m q = None)"
proof (induction s arbitrary: pre)
  case Nil
  then show ?case by (auto split: option.splits)
next
  case (Cons c cs)
  show ?case
  proof (cases "m (c # cs)")
    case (Some a)
    with Cons.prems show ?thesis by auto
  next
    case None
    with Cons.prems obtain pre' where s: "re_search m cs = Some (pre', r)" and pre: "pre = c # pre'"
      by (auto split: option.splits)
    from Cons.IH [OF s] obtain suf where suf: "cs = pre' @ suf" "m suf = Some r"
      and least: "\<forall>p q. cs = p @ q \<and> length p < length pre' \<longrightarrow> m q = None" by blast
    have "\<forall>p q. c # cs = p @ q \<and> length p < length pre \<longrightarrow> m q = None"
    proof (intro allI impI)
      fix p q assume a: "c # cs = p @ q \<and> length p < length pre"
      show "m q = None"
      proof (cases p)
        case Nil
        with a None show ?thesis by simp
      next
        case (Cons y ys)
        with a pre have "cs = ys @ q \<and> length ys < length pre'" by simp
        with least show ?thesis by blast
      qed
    qed
    with suf pre show ?thesis by auto
  qed
qed

lemma re_search_NoneD:
  "re_search m s = None \<Longrightarrow> s = p @ q \<Longrightarrow> m q = None"
proof (induction s arbitrary: p)
  case Nil
  then show ?case by (auto split: option.splits)
next
  case (Cons c cs)
  from Cons.prems(1) have n: "m (c # cs) = None" and r: "re_search m cs = None"
    by (auto split: option.splits)
  show ?case
  proof (cases p)
    case Nil
    with Cons.prems n show ?thesis by simp
  next
    case (Cons y ys)
    with Cons.prems(2) have "cs = ys @ q" by simp
    from Cons.IH [OF r this] show ?thesis .
  qed
qed

lemma re_search_SomeI:
  "m suf = Some r \<Longrightarrow> (\<forall>p q. pre @ suf = p @ q \<and> length p < length pre \<longrightarrow> m q = None) \<Longrightarrow>
     re_search m (pre @ suf) = Some (pre, r)"
proof (induction pre)
  case Nil
  then show ?case by (cases suf) auto
next
  case (Cons c pre)
  from Cons.prems(2) have n: "m (c # pre @ suf) = None"
    by (drule_tac x = "[]" in spec) auto
  have "\<forall>p q. pre @ suf = p @ q \<and> length p < length pre \<longrightarrow> m q = None"
  proof (intro allI impI)
    fix p q assume "pre @ suf = p @ q \<and> length p < length pre"
    then have "(c # pre) @ suf = (c # p) @ q \<and> length (c # p) < length (c # pre)" by simp
    with Cons.prems(2) show "m q = None" by blast
  qed
  from Cons.IH [OF Cons.prems(1) this] n show ?case by simp
qed

lemma lit_ci_SomeD: "lit_ci ps s = Some r \<Longrightarrow> \<exists>b. s = b @ r \<and> length b = length ps \<and> list_all2 ci_match ps b"
proof (induction ps s rule: lit_ci.induct)
  case (1 s)
  then show ?case by simp
next
  case (2 p ps)
  then show ?case by simp
next
  case (3 p ps c cs)
  then obtain b where "cs = b @ r \<and> length b = length ps \<and> list_all2 ci_match ps b" "ci_match p c"
    by (auto split: if_splits)
  then show ?case by (intro exI [of _ "c # b"]) simp
qed

lemma lit_ci_append: "lit_ci ps s = Some r \<Longrightarrow> lit_ci ps (s @ x) = Some (r @ x)"
  by (induction ps s rule: lit_ci.induct) (auto split: if_splits)

lemma lit_ci_SomeI: "list_all2 ci_match ps b \<Longrightarrow> lit_ci ps (b @ r) = Some r"
  by (induction ps b rule: list_all2_induct) auto

lemma match_body_Some_iff:
  "match_body s = Some (tag, rest) \<longleftrightarrow> s = tag @ rest \<and> is_body_tag tag"
proof
  assume "match_body s = Some (tag, rest)"
  then obtain r y where l: "lit_ci (ustr ''<body'') s = Some r"
    and d: "dropWhile (\<lambda>x. x \<noteq> 62) r = y # rest" and t: "tag = take (length s - length rest) s"
    by (auto simp: match_body_def split: option.splits list.splits)
  let ?a = "takeWhile (\<lambda>x. x \<noteq> 62) r"
  from d have r: "r = ?a @ 62 # rest" by (simp add: dropWhile_eq_Cons_iff)
  from lit_ci_SomeD [OF l] obtain b where b: "s = b @ r" "list_all2 ci_match (ustr ''<body'') b" by blast
  have s: "s = (b @ ?a @ [62]) @ rest" using b(1) r by simp
  then have "length s - length rest = length (b @ ?a @ [62])"
    by (metis add_diff_cancel_right' length_append)
  with t s have tag: "tag = b @ ?a @ [62]" by (metis append_eq_conv_conj)
  have "62 \<notin> set ?a" by (auto dest: set_takeWhileD)
  then have "is_body_tag tag"
    unfolding is_body_tag_def tag using lit_ci_SomeI [OF b(2), of "?a @ [62]"] by simp
  with s tag show "s = tag @ rest \<and> is_body_tag tag" by simp
next
  assume a: "s = tag @ rest \<and> is_body_tag tag"
  then obtain r where l: "lit_ci (ustr ''<body'') tag = Some r" and r: "r \<noteq> []" "last r = 62" "62 \<notin> set (butlast r)"
    by (auto simp: is_body_tag_def split: option.splits)
  from r have r': "r = butlast r @ [62]" by (metis append_butlast_last_id)
  from lit_ci_append [OF l, of rest] a have l': "lit_ci (ustr ''<body'') s = Some (r @ rest)" by simp
  have "r @ rest = butlast r @ 62 # rest" using r' by (metis append.assoc append_Cons append_Nil)
  then have d: "dropWhile (\<lambda>x. x \<noteq> 62) (r @ rest) = 62 # rest"
    using span_unique [OF r(3), of rest] by (simp only:)
  have "take (length s - length rest) s = tag" using a by simp
  with l' d show "match_body s = Some (tag, rest)" by (simp add: match_body_def)
qed

lemma is_body_tag_last: "is_body_tag t \<Longrightarrow> t \<noteq> [] \<and> last t = 62"
proof -
  assume "is_body_tag t"
  then obtain r where l: "lit_ci (ustr ''<body'') t = Some r" and r: "r \<noteq> []" "last r = 62"
    by (auto simp: is_body_tag_def split: option.splits)
  from lit_ci_SomeD [OF l] obtain b where "t = b @ r" by blast
  with r show ?thesis by simp
qed

lemma headings_insert_title:
  "\<exists>k. headings (insert_title d t) = take k (headings d) @ [h1_open, h1_close] @ drop k (headings d)"
proof (cases "re_search match_body d")
  case None
  then have "insert_title d t = ustr ''<h1>'' @ html_escape t @ ustr ''</h1>'' @ [10] @ d"
    by (simp add: insert_title_def title_html_def)
  then have "headings (insert_title d t) = [h1_open, h1_close] @ headings d"
    using headings_title_html [OF html_escape_no_lt] by simp
  then show ?thesis by (intro exI [of _ 0]) simp
next
  case (Some a)
  obtain pre tag rest where a: "a = (pre, tag, rest)" by (cases a) auto
  from re_search_SomeD [OF Some [unfolded a]] obtain suf where "d = pre @ suf" "match_body suf = Some (tag, rest)"
    by blast
  then have d: "d = (pre @ tag) @ rest" and b: "is_body_tag tag" by (auto simp: match_body_Some_iff)
  from is_body_tag_last [OF b] have l: "pre @ tag = [] \<or> last (pre @ tag) = 62" by simp
  let ?A = "pre @ tag"
  have i: "insert_title d t = ?A @ [10] @ ustr ''<h1>'' @ html_escape t @ ustr ''</h1>'' @ [10] @ rest"
    using Some a by (simp add: insert_title_def title_html_def)
  have "headings ([10] @ ustr ''<h1>'' @ html_escape t @ ustr ''</h1>'' @ [10] @ rest)
          = headings (ustr ''<h1>'' @ html_escape t @ ustr ''</h1>'' @ [10] @ rest)"
    by (rule headings_no_lt) simp
  then have h: "headings (insert_title d t) = headings ?A @ [h1_open, h1_close] @ headings rest"
    unfolding i headings_append [OF l] using headings_title_html [OF html_escape_no_lt] by simp
  have hd: "headings d = headings ?A @ headings rest"
    unfolding d by (rule headings_append [OF l])
  show ?thesis unfolding h hd by (intro exI [of _ "length (headings ?A)"]) simp
qed

lemma level_shift_tag: "1 \<le> level t \<Longrightarrow> 2 \<le> level (shift_tag t) \<and> level (shift_tag t) \<le> 6"
  by (simp add: shift_tag_def)

lemma level_headings: "t \<in> set (headings s) \<Longrightarrow> 1 \<le> level t \<and> level t \<le> 6"
proof (induction s rule: headings.induct)
  case (1 s)
  show ?case
  proof (cases "match_heading s")
    case None
    show ?thesis
    proof (cases s)
      case Nil
      with 1(3) show ?thesis by (simp add: headings_Nil)
    next
      case (Cons c cs)
      with 1(3) None have "t \<in> set (headings cs)" by (simp add: headings_None)
      then show ?thesis by (rule 1(1) [OF None Cons])
    qed
  next
    case (Some a)
    obtain g rest where a: "a = (g, rest)" by (cases a) auto
    have m: "match_heading s = Some (g, rest)" using Some a by simp
    from m have "1 \<le> level (tag_of g) \<and> level (tag_of g) \<le> 6"
      unfolding match_heading_Some_iff' by (cases g) (auto simp: tag_of_def int_of_digit_def)
    with 1(2) [OF Some a [symmetric]] 1(3) m show ?thesis by (auto simp: headings_Some)
  qed
qed

lemma replacement_emit:
  "match_heading s = Some (g, rest) \<Longrightarrow> replacement g = emit_tag (shift_tag (tag_of g))"
  unfolding match_heading_Some_iff'
  by (cases g) (auto simp: replacement_def emit_tag_def shift_tag_def tag_of_def)

lemma headings_normalize:
  "\<exists>k. headings (normalize unescape text title_override) =
         take k (map shift_tag (headings text)) @ [h1_open, h1_close] @ drop k (map shift_tag (headings text))"
  using headings_insert_title [of "shift_headings text" "resolve_title unescape text title_override"]
  by (simp add: normalize_def headings_shift)

lemma shifted_levels:
  "list_all (\<lambda>t. 2 \<le> level t \<and> level t \<le> 6) (map shift_tag (headings text))"
  unfolding list_all_iff using level_headings level_shift_tag by fastforce

lemma filter_none: "list_all (\<lambda>t. \<not> P t) xs \<Longrightarrow> filter P xs = []"
  by (induction xs) auto

lemma length_text_segments: "length (text_segments s) = length (headings s) + 1"
proof (induction s rule: headings.induct)
  case (1 s)
  show ?case
  proof (cases "match_heading s")
    case None
    show ?thesis
    proof (cases s)
      case Nil
      then show ?thesis by (simp add: headings_Nil text_segments_Nil)
    next
      case (Cons c cs)
      with None 1(1) [OF None Cons] show ?thesis
        by (auto simp: headings_None text_segments_None split: list.splits)
    qed
  next
    case (Some a)
    obtain g rest where a: "a = (g, rest)" by (cases a) auto
    with Some 1(2) [OF Some a [symmetric]] show ?thesis
      by (simp add: headings_Some text_segments_Some)
  qed
qed

lemma re_search_None_iff:
  "re_search m s = None \<longleftrightarrow> (\<forall>p q. s = p @ q \<longrightarrow> m q = None)"
proof
  assume "re_search m s = None"
  then show "\<forall>p q. s = p @ q \<longrightarrow> m q = None" by (blast dest: re_search_NoneD)
next
  assume a: "\<forall>p q. s = p @ q \<longrightarrow> m q = None"
  show "re_search m s = None"
  proof (rule ccontr)
    assume "re_search m s \<noteq> None"
    then obtain pre r where "re_search m s = Some (pre, r)" by auto
    from re_search_SomeD [OF this] obtain suf where "s = pre @ suf" "m suf = Some r" by blast
    with a show False by auto
  qed
qed




lemma is_sep_not_space: "is_sep c \<Longrightarrow> \<not> is_space c"
  by (auto simp: is_sep_def is_space_def)

lemma match_sep_Some_iff:
  "match_sep s = Some u \<longleftrightarrow> (\<exists>ws c w r. s = ws @ c # w # r \<and> list_all is_space ws \<and> is_sep c \<and> is_space w)"
proof
  assume "match_sep s = Some u"
  then obtain c w r where d: "dropWhile is_space s = c # w # r" and v: "is_sep c" "is_space w"
    by (auto simp: match_sep_def split: list.splits if_splits)
  have "s = takeWhile is_space s @ dropWhile is_space s" by simp
  with d have "s = takeWhile is_space s @ c # w # r" by simp
  moreover have "list_all is_space (takeWhile is_space s)"
    by (auto simp: list_all_iff dest: set_takeWhileD)
  ultimately show "\<exists>ws c w r. s = ws @ c # w # r \<and> list_all is_space ws \<and> is_sep c \<and> is_space w"
    using v by blast
next
  assume "\<exists>ws c w r. s = ws @ c # w # r \<and> list_all is_space ws \<and> is_sep c \<and> is_space w"
  then obtain ws c w r where s: "s = ws @ c # w # r" and v: "list_all is_space ws" "is_sep c" "is_space w"
    by blast
  have "dropWhile is_space s = c # w # r"
    unfolding s using v is_sep_not_space [OF v(2)]
    by (subst dropWhile_append2) (auto simp: list_all_iff)
  with v show "match_sep s = Some u" by (simp add: match_sep_def)
qed

lemma has_separator_iff:
  "has_separator s \<longleftrightarrow> (\<exists>p c w r. s = p @ c # w # r \<and> is_sep c \<and> is_space w)"
proof
  assume "has_separator s"
  then obtain pre u where "re_search match_sep s = Some (pre, u)"
    by (auto simp: has_separator_def)
  from re_search_SomeD [OF this] obtain suf where "s = pre @ suf" "match_sep suf = Some u" by blast
  then obtain ws c w r where "s = (pre @ ws) @ c # w # r" "is_sep c" "is_space w"
    by (auto simp: match_sep_Some_iff)
  then show "\<exists>p c w r. s = p @ c # w # r \<and> is_sep c \<and> is_space w" by blast
next
  assume "\<exists>p c w r. s = p @ c # w # r \<and> is_sep c \<and> is_space w"
  then obtain p c w r where s: "s = p @ c # w # r" and v: "is_sep c" "is_space w" by blast
  have "match_sep (c # w # r) = Some ()"
    unfolding match_sep_Some_iff using v by (intro exI [of _ "[]"]) simp
  with s show "has_separator s"
    by (auto simp: has_separator_def re_search_None_iff)
qed

lemma strip_id:
  assumes "s \<noteq> []" "\<not> is_space (hd s)" "\<not> is_space (last s)"
  shows "strip s = s"
proof -
  from assms(1,2) have a: "dropWhile is_space s = s" by (cases s) auto
  from assms(1,3) have "dropWhile is_space (rev s) = rev s"
    by (cases "rev s") (auto simp: last_rev hd_rev [symmetric] simp del: rev_rev_ident dest: arg_cong [where f = hd])
  with a show ?thesis by (simp add: strip_def)
qed


lemma clean_title_nonempty: "clean_title t \<noteq> []"
  by (simp add: clean_title_def Let_def ustr_def)

lemma lit_ci_Some_iff:
  "lit_ci ps s = Some r \<longleftrightarrow> (\<exists>b. s = b @ r \<and> list_all2 ci_match ps b)"
  using lit_ci_SomeD [of ps s r] lit_ci_SomeI [of ps _ r] by blast

lemma match_title_SomeD:
  assumes "match_title s = Some g"
  shows "\<exists>ot ct rest. s = ot @ g @ ct @ rest \<and> list_all2 ci_match (ustr ''<title>'') ot \<and>
           list_all2 ci_match (ustr ''</title>'') ct \<and> g \<noteq> [] \<and> 60 \<notin> set g"
proof -
  from assms obtain r r' where l: "lit_ci (ustr ''<title>'') s = Some r"
    and g: "g = takeWhile (\<lambda>x. x \<noteq> 60) r" "g \<noteq> []"
    and c: "lit_ci (ustr ''</title>'') (dropWhile (\<lambda>x. x \<noteq> 60) r) = Some r'"
    by (auto simp: match_title_def Let_def split: option.splits if_splits)
  from l obtain o' where op: "s = o' @ r" "list_all2 ci_match (ustr ''<title>'') o'"
    by (auto simp: lit_ci_Some_iff)
  from c obtain c' where c': "dropWhile (\<lambda>x. x \<noteq> 60) r = c' @ r'" "list_all2 ci_match (ustr ''</title>'') c'"
    by (auto simp: lit_ci_Some_iff)
  have "r = g @ dropWhile (\<lambda>x. x \<noteq> 60) r" unfolding g by simp
  with c' op have "s = o' @ g @ c' @ r'" by simp
  moreover have "60 \<notin> set g" unfolding g by (auto dest: set_takeWhileD)
  ultimately show ?thesis using op(2) c'(2) g(2) by blast
qed

lemma title_search_SomeD:
  assumes "re_search match_title text = Some (pre, g)"
  shows "\<exists>ot ct rest. text = pre @ ot @ g @ ct @ rest \<and> list_all2 ci_match (ustr ''<title>'') ot \<and>
           list_all2 ci_match (ustr ''</title>'') ct \<and> g \<noteq> [] \<and> 60 \<notin> set g"
proof -
  from re_search_SomeD [OF assms] obtain suf where "text = pre @ suf" "match_title suf = Some g"
    by blast
  with match_title_SomeD [of suf g] show ?thesis by auto
qed

lemma length_headings_normalize:
  "length (headings (normalize unescape text title_override)) = length (headings text) + 2"
proof -
  obtain k where "headings (normalize unescape text title_override) =
         take k (map shift_tag (headings text)) @ [h1_open, h1_close] @ drop k (map shift_tag (headings text))"
    using headings_normalize by blast
  then have "length (headings (normalize unescape text title_override))
     = length (take k (map shift_tag (headings text)) @ drop k (map shift_tag (headings text))) + 2"
    by (simp only: length_append) simp
  then show ?thesis by simp
qed

lemma all_suffixes_iff: "all_suffixes P s \<longleftrightarrow> (\<forall>p q. s = p @ q \<longrightarrow> P q)"
proof (induction s)
  case Nil
  then show ?case by simp
next
  case (Cons c cs)
  have "(\<forall>p q. c # cs = p @ q \<longrightarrow> P q) \<longleftrightarrow> P (c # cs) \<and> (\<forall>p q. cs = p @ q \<longrightarrow> P q)"
  proof (intro iffI conjI allI impI)
    assume a: "\<forall>p q. c # cs = p @ q \<longrightarrow> P q"
    from a show "P (c # cs)" by (metis append_Nil)
    fix p q assume "cs = p @ q"
    then have "c # cs = (c # p) @ q" by simp
    with a show "P q" by blast
  next
    fix p q assume a: "P (c # cs) \<and> (\<forall>p q. cs = p @ q \<longrightarrow> P q)" and e: "c # cs = p @ q"
    show "P q"
    proof (cases p)
      case Nil
      with a e show ?thesis by simp
    next
      case (Cons y ys)
      with e have "cs = ys @ q" by simp
      with a show ?thesis by blast
    qed
  qed
  with Cons show ?case by simp
qed

lemma after_literal:
  "(\<forall>p ot r. s = p @ ot @ r \<and> list_all2 ci_match ps ot \<longrightarrow> Q r) \<longleftrightarrow>
   all_suffixes (\<lambda>q. case lit_ci ps q of None \<Rightarrow> True | Some r \<Rightarrow> Q r) s"
  unfolding all_suffixes_iff
proof (intro iffI allI impI)
  fix p q assume a: "\<forall>p ot r. s = p @ ot @ r \<and> list_all2 ci_match ps ot \<longrightarrow> Q r" and s: "s = p @ q"
  show "case lit_ci ps q of None \<Rightarrow> True | Some r \<Rightarrow> Q r"
  proof (cases "lit_ci ps q")
    case (Some r)
    then obtain b where "q = b @ r" "list_all2 ci_match ps b" by (auto simp: lit_ci_Some_iff)
    with a s have "Q r" by blast
    with Some show ?thesis by simp
  qed simp
next
  fix p ot r
  assume a: "\<forall>p q. s = p @ q \<longrightarrow> (case lit_ci ps q of None \<Rightarrow> True | Some r \<Rightarrow> Q r)"
    and s: "s = p @ ot @ r \<and> list_all2 ci_match ps ot"
  then have "lit_ci ps (ot @ r) = Some r" by (simp add: lit_ci_SomeI)
  with a s show "Q r" by (metis option.simps(5))
qed



lemma re_search_first:
  "re_search m s = Some (pre, r) \<longleftrightarrow>
     (\<exists>suf. s = pre @ suf \<and> m suf = Some r) \<and> (\<forall>p q x. s = p @ q \<and> m q = Some x \<longrightarrow> length pre \<le> length p)"
proof
  assume a: "re_search m s = Some (pre, r)"
  from re_search_SomeD [OF a] have e: "\<exists>suf. s = pre @ suf \<and> m suf = Some r"
    and l: "\<forall>p q. s = p @ q \<and> length p < length pre \<longrightarrow> m q = None" by blast+
  have "\<forall>p q x. s = p @ q \<and> m q = Some x \<longrightarrow> length pre \<le> length p"
  proof (intro allI impI)
    fix p q x assume b: "s = p @ q \<and> m q = Some x"
    show "length pre \<le> length p"
    proof (rule ccontr)
      assume "\<not> length pre \<le> length p"
      then have "s = p @ q \<and> length p < length pre" using b by simp
      with l have "m q = None" by blast
      with b show False by simp
    qed
  qed
  with e show "(\<exists>suf. s = pre @ suf \<and> m suf = Some r) \<and>
      (\<forall>p q x. s = p @ q \<and> m q = Some x \<longrightarrow> length pre \<le> length p)" by blast
next
  assume a: "(\<exists>suf. s = pre @ suf \<and> m suf = Some r) \<and>
      (\<forall>p q x. s = p @ q \<and> m q = Some x \<longrightarrow> length pre \<le> length p)"
  then obtain suf where s: "s = pre @ suf" and m: "m suf = Some r" by blast
  have "\<forall>p q. pre @ suf = p @ q \<and> length p < length pre \<longrightarrow> m q = None"
  proof (intro allI impI)
    fix p q assume b: "pre @ suf = p @ q \<and> length p < length pre"
    show "m q = None"
    proof (cases "m q")
      case (Some x)
      with a b s have "length pre \<le> length p" by blast
      with b show ?thesis by simp
    qed simp
  qed
  from re_search_SomeI [OF m this] s show "re_search m s = Some (pre, r)" by simp
qed

lemma ci_match_lt: "ci_match 60 c \<longleftrightarrow> c = 60"
  by (auto simp: ci_match_def)

lemma close_title_starts: "list_all2 ci_match (ustr ''</title>'') ct \<Longrightarrow> \<exists>r. ct = 60 # r"
  by (cases ct) (auto simp: ustr_def ci_match_lt)

lemma close_h1_starts: "list_all2 ci_match (ustr ''</h1>'') ch \<Longrightarrow> \<exists>r. ch = 60 # r"
  by (cases ch) (auto simp: ustr_def ci_match_lt)

lemma match_title_Some_iff:
  "match_title s = Some g \<longleftrightarrow>
     (\<exists>ot ct rest. s = ot @ g @ ct @ rest \<and> list_all2 ci_match (ustr ''<title>'') ot \<and>
        g \<noteq> [] \<and> 60 \<notin> set g \<and> list_all2 ci_match (ustr ''</title>'') ct)"
proof
  assume "match_title s = Some g"
  from match_title_SomeD [OF this] show "\<exists>ot ct rest. s = ot @ g @ ct @ rest \<and>
      list_all2 ci_match (ustr ''<title>'') ot \<and> g \<noteq> [] \<and> 60 \<notin> set g \<and>
      list_all2 ci_match (ustr ''</title>'') ct" by blast
next
  assume "\<exists>ot ct rest. s = ot @ g @ ct @ rest \<and> list_all2 ci_match (ustr ''<title>'') ot \<and>
        g \<noteq> [] \<and> 60 \<notin> set g \<and> list_all2 ci_match (ustr ''</title>'') ct"
  then obtain ot ct rest where s: "s = ot @ g @ ct @ rest"
    and ot: "list_all2 ci_match (ustr ''<title>'') ot" and g: "g \<noteq> []" "60 \<notin> set g"
    and ct: "list_all2 ci_match (ustr ''</title>'') ct" by blast
  from close_title_starts [OF ct] obtain c' where c': "ct = 60 # c'" by blast
  have l: "lit_ci (ustr ''<title>'') s = Some (g @ ct @ rest)"
    unfolding s by (rule lit_ci_SomeI [OF ot])
  have sp: "takeWhile (\<lambda>x. x \<noteq> 60) (g @ ct @ rest) = g \<and> dropWhile (\<lambda>x. x \<noteq> 60) (g @ ct @ rest) = ct @ rest"
    using span_unique [OF g(2), of "c' @ rest"] c' by simp
  have "lit_ci (ustr ''</title>'') (ct @ rest) = Some rest" by (rule lit_ci_SomeI [OF ct])
  with l sp g show "match_title s = Some g" by (simp add: match_title_def Let_def)
qed

lemma title_match_iff:
  "title_match text pre g \<longleftrightarrow> (\<exists>suf. text = pre @ suf \<and> match_title suf = Some g)"
  unfolding title_match_def match_title_Some_iff by auto

lemma first_title_iff:
  "first_title text pre g \<longleftrightarrow> re_search match_title text = Some (pre, g)"
  unfolding first_title_def re_search_first title_match_iff by blast

lemma no_title_iff:
  "(\<forall>pre g. \<not> title_match text pre g) \<longleftrightarrow> re_search match_title text = None"
  unfolding re_search_None_iff title_match_iff
  by (metis not_Some_eq)

lemma match_h1_Some_iff:
  "match_h1 s = Some g \<longleftrightarrow>
     (\<exists>oh a ch rest. s = oh @ a @ [62] @ g @ ch @ rest \<and> list_all2 ci_match (ustr ''<h1'') oh \<and>
        62 \<notin> set a \<and> list_all2 ci_match (ustr ''</h1>'') ch \<and>
        (\<forall>p c q. g @ ch @ rest = p @ c @ q \<and> list_all2 ci_match (ustr ''</h1>'') c \<longrightarrow> length g \<le> length p))"
proof
  assume "match_h1 s = Some g"
  then obtain r y r' r'' where l: "lit_ci (ustr ''<h1'') s = Some r"
    and d: "dropWhile (\<lambda>x. x \<noteq> 62) r = y # r'"
    and f: "re_search (lit_ci (ustr ''</h1>'')) r' = Some (g, r'')"
    by (auto simp: match_h1_def split: option.splits list.splits)
  let ?a = "takeWhile (\<lambda>x. x \<noteq> 62) r"
  from d have r: "r = ?a @ 62 # r'" by (simp add: dropWhile_eq_Cons_iff)
  have a: "62 \<notin> set ?a" by (auto dest: set_takeWhileD)
  from l obtain oh where oh: "s = oh @ r" "list_all2 ci_match (ustr ''<h1'') oh"
    by (auto simp: lit_ci_Some_iff)
  from f [unfolded re_search_first] obtain suf where suf: "r' = g @ suf" "lit_ci (ustr ''</h1>'') suf = Some r''"
    and least: "\<forall>p q x. r' = p @ q \<and> lit_ci (ustr ''</h1>'') q = Some x \<longrightarrow> length g \<le> length p"
    by blast
  from suf(2) obtain ch where ch: "suf = ch @ r''" "list_all2 ci_match (ustr ''</h1>'') ch"
    by (auto simp: lit_ci_Some_iff)
  have lazy: "\<forall>p c q. g @ ch @ r'' = p @ c @ q \<and> list_all2 ci_match (ustr ''</h1>'') c \<longrightarrow> length g \<le> length p"
  proof (intro allI impI)
    fix p c q assume b: "g @ ch @ r'' = p @ c @ q \<and> list_all2 ci_match (ustr ''</h1>'') c"
    then have "lit_ci (ustr ''</h1>'') (c @ q) = Some q" by (simp add: lit_ci_SomeI)
    moreover have "r' = p @ (c @ q)" using b suf(1) ch(1) by simp
    ultimately show "length g \<le> length p" using least by blast
  qed
  have "s = oh @ ?a @ [62] @ g @ ch @ r''" using oh(1) r suf(1) ch(1) by simp
  with oh(2) a ch(2) lazy show "\<exists>oh a ch rest. s = oh @ a @ [62] @ g @ ch @ rest \<and>
        list_all2 ci_match (ustr ''<h1'') oh \<and> 62 \<notin> set a \<and> list_all2 ci_match (ustr ''</h1>'') ch \<and>
        (\<forall>p c q. g @ ch @ rest = p @ c @ q \<and> list_all2 ci_match (ustr ''</h1>'') c \<longrightarrow> length g \<le> length p)"
    by blast
next
  assume "\<exists>oh a ch rest. s = oh @ a @ [62] @ g @ ch @ rest \<and> list_all2 ci_match (ustr ''<h1'') oh \<and>
        62 \<notin> set a \<and> list_all2 ci_match (ustr ''</h1>'') ch \<and>
        (\<forall>p c q. g @ ch @ rest = p @ c @ q \<and> list_all2 ci_match (ustr ''</h1>'') c \<longrightarrow> length g \<le> length p)"
  then obtain oh a ch rest where s: "s = oh @ a @ [62] @ g @ ch @ rest"
    and oh: "list_all2 ci_match (ustr ''<h1'') oh" and a: "62 \<notin> set a"
    and ch: "list_all2 ci_match (ustr ''</h1>'') ch"
    and lazy: "\<forall>p c q. g @ ch @ rest = p @ c @ q \<and> list_all2 ci_match (ustr ''</h1>'') c \<longrightarrow> length g \<le> length p"
    by blast
  have l: "lit_ci (ustr ''<h1'') s = Some (a @ 62 # g @ ch @ rest)"
    unfolding s using lit_ci_SomeI [OF oh, of "a @ 62 # g @ ch @ rest"] by simp
  have d: "dropWhile (\<lambda>x. x \<noteq> 62) (a @ 62 # g @ ch @ rest) = 62 # g @ ch @ rest"
    using span_unique [OF a] by blast
  have "lit_ci (ustr ''</h1>'') (ch @ rest) = Some rest" by (rule lit_ci_SomeI [OF ch])
  moreover have "\<forall>p q x. g @ ch @ rest = p @ q \<and> lit_ci (ustr ''</h1>'') q = Some x \<longrightarrow> length g \<le> length p"
  proof (intro allI impI)
    fix p q x assume b: "g @ ch @ rest = p @ q \<and> lit_ci (ustr ''</h1>'') q = Some x"
    then obtain c where "q = c @ x" "list_all2 ci_match (ustr ''</h1>'') c" by (auto simp: lit_ci_Some_iff)
    with b lazy show "length g \<le> length p" by blast
  qed
  ultimately have "re_search (lit_ci (ustr ''</h1>'')) (g @ ch @ rest) = Some (g, rest)"
    unfolding re_search_first by blast
  with l d show "match_h1 s = Some g" by (simp add: match_h1_def)
qed

lemma h1_match_iff:
  "(\<exists>a. h1_match text pre a g) \<longleftrightarrow> (\<exists>suf. text = pre @ suf \<and> match_h1 suf = Some g)"
  unfolding h1_match_def match_h1_Some_iff by (auto; metis)

lemma first_h1D:
  assumes "first_h1 text pre a g"
  shows "re_search match_h1 text = Some (pre, g)"
proof -
  from assms have h: "h1_match text pre a g"
    and least: "\<forall>pre' a' g'. h1_match text pre' a' g' \<longrightarrow> length pre \<le> length pre'"
    by (auto simp: first_h1_def)
  from h have e: "\<exists>suf. text = pre @ suf \<and> match_h1 suf = Some g"
    using h1_match_iff [of "text" pre g] by blast
  have "\<forall>p q x. text = p @ q \<and> match_h1 q = Some x \<longrightarrow> length pre \<le> length p"
  proof (intro allI impI)
    fix p q x assume "text = p @ q \<and> match_h1 q = Some x"
    then have "\<exists>a'. h1_match text p a' x" using h1_match_iff [of "text" p x] by blast
    with least show "length pre \<le> length p" by blast
  qed
  with e show ?thesis unfolding re_search_first by blast
qed

lemma first_h1I:
  assumes "re_search match_h1 text = Some (pre, g)"
  shows "first_h1 text pre (takeWhile (\<lambda>x. x \<noteq> 62) (drop (length pre + 3) text)) g"
proof -
  from assms [unfolded re_search_first] obtain suf where s: "text = pre @ suf" "match_h1 suf = Some g"
    and least: "\<forall>p q x. text = p @ q \<and> match_h1 q = Some x \<longrightarrow> length pre \<le> length p" by blast
  from s(2) [unfolded match_h1_Some_iff] obtain oh a ch rest where
    suf: "suf = oh @ a @ [62] @ g @ ch @ rest" and oh: "list_all2 ci_match (ustr ''<h1'') oh"
    and a: "62 \<notin> set a" and ch: "list_all2 ci_match (ustr ''</h1>'') ch"
    and lazy: "\<forall>p c q. g @ ch @ rest = p @ c @ q \<and> list_all2 ci_match (ustr ''</h1>'') c \<longrightarrow> length g \<le> length p"
    by blast
  from oh have "length oh = 3" by (auto dest: list_all2_lengthD simp: ustr_def)
  then have "drop (length pre + 3) text = a @ 62 # g @ ch @ rest"
    unfolding s(1) suf by simp
  then have "takeWhile (\<lambda>x. x \<noteq> 62) (drop (length pre + 3) text) = a"
    using span_unique [OF a] by simp
  moreover have "h1_match text pre a g"
    unfolding h1_match_def using s(1) suf oh a ch lazy by blast
  moreover have "\<forall>pre' a' g'. h1_match text pre' a' g' \<longrightarrow> length pre \<le> length pre'"
  proof (intro allI impI)
    fix pre' a' g' assume "h1_match text pre' a' g'"
    then have "\<exists>suf. text = pre' @ suf \<and> match_h1 suf = Some g'"
      using h1_match_iff [of "text" pre' g'] by blast
    with least show "length pre \<le> length pre'" by blast
  qed
  ultimately show ?thesis by (simp add: first_h1_def)
qed

lemma no_h1_iff:
  "(\<forall>pre a g. \<not> h1_match text pre a g) \<longleftrightarrow> re_search match_h1 text = None"
proof -
  have "(\<forall>pre a g. \<not> h1_match text pre a g) \<longleftrightarrow> (\<forall>pre g. \<not> (\<exists>a. h1_match text pre a g))" by blast
  also have "\<dots> \<longleftrightarrow> (\<forall>pre g. \<not> (\<exists>suf. text = pre @ suf \<and> match_h1 suf = Some g))"
    by (simp only: h1_match_iff)
  also have "\<dots> \<longleftrightarrow> re_search match_h1 text = None"
    unfolding re_search_None_iff by (metis not_Some_eq)
  finally show ?thesis .
qed


text \<open>
  Outside the matches of its pattern \<open>shift_headings\<close> keeps the text: the segments before,
  between and after the matches are the same in the output and in the input.
\<close>

lemma text_segments_shift:
  "text_segments (shift_headings s) = text_segments s \<and>
   length (text_segments s) = length (headings s) + 1"
proof (rule conjI [OF _ length_text_segments], induction s rule: shift_headings.induct)
  case (1 s)
  show ?case
  proof (cases "match_heading s")
    case None
    show ?thesis
    proof (cases s)
      case Nil
      then show ?thesis by (simp add: shift_headings_Nil)
    next
      case (Cons c cs)
      from None Cons have n: "match_heading (c # shift_headings cs) = None"
        by (simp add: match_heading_None_shift)
      from None Cons have "text_segments (shift_headings s) = text_segments (c # shift_headings cs)"
        by (simp add: shift_headings_None)
      also have "\<dots> = (case text_segments (shift_headings cs) of [] \<Rightarrow> [[c]] | seg # segs \<Rightarrow> (c # seg) # segs)"
        using n by (rule text_segments_None)
      also have "\<dots> = (case text_segments cs of [] \<Rightarrow> [[c]] | seg # segs \<Rightarrow> (c # seg) # segs)"
        by (simp only: 1(1) [OF None Cons])
      also have "\<dots> = text_segments s"
        using None Cons by (simp add: text_segments_None)
      finally show ?thesis .
    qed
  next
    case (Some a)
    obtain g rest where a: "a = (g, rest)" by (cases a) auto
    have m: "match_heading s = Some (g, rest)" using Some a by simp
    have "text_segments (shift_headings s) = text_segments (replacement g @ shift_headings rest)"
      using m by (simp add: shift_headings_Some)
    also have "\<dots> = [] # text_segments (shift_headings rest)"
      by (rule text_segments_Some [OF match_heading_replacement [OF m]])
    also have "\<dots> = [] # text_segments rest"
      using 1(2) [OF Some a [symmetric]] by simp
    also have "\<dots> = text_segments s"
      using m by (simp add: text_segments_Some)
    finally show ?thesis .
  qed
qed

section \<open>The example scenarios of the specification\<close>

text \<open>
  The five scenarios of the specification, run on the model. The documents hold no
  ampersand, so that \<^verbatim>\<open>html.unescape\<close> changes nothing on them.
\<close>

lemma scenario_1:
  "normalize (\<lambda>s. s) (ustr ''<html><title>My Article - BigSite</title><body><h1>Hello</h1></body></html>'') None =
     ustr ''<html><title>My Article - BigSite</title><body>'' @ [10] @ ustr ''<h1>My Article</h1>'' @ [10] @
     ustr ''<h2>Hello</h2></body></html>''"
  by (simp add: eval_defs)

lemma scenario_2:
  "normalize unescape (ustr ''<html><body><h1>Only Heading</h1></body></html>'') None =
     ustr ''<html><body>'' @ [10] @ ustr ''<h1>Only Heading</h1>'' @ [10] @
     ustr ''<h2>Only Heading</h2></body></html>''"
  by (simp add: eval_defs)

lemma scenario_3:
  "normalize unescape (ustr ''<p>No headings, no title, no body tag</p>'') None =
     ustr ''<h1>Untitled</h1>'' @ [10] @ ustr ''<p>No headings, no title, no body tag</p>''"
  by (simp add: eval_defs)

lemma scenario_4:
  "resolve_title unescape d (Some (ustr ''Custom Name - Ignored'')) = ustr ''Custom Name''"
  by (simp add: eval_defs)

lemma scenario_5:
  "shift_headings (ustr ''<h6>Deep</h6>'') = ustr ''<h6>Deep</h6>''"
  by (simp add: eval_defs)

section \<open>The claims\<close>

text \<open>
  C1. For every document and every override, the output of \<open>normalize\<close> has exactly one
  opening tag of level 1 and exactly one closing tag of level 1: the two tags of the
  inserted title element, one after the other. Every other tag of the output is a tag of
  the input, shifted, and its level is between 2 and 6. Tags are read from left to right
  with the pattern of \<open>shift_headings\<close>.
\<close>

theorem normalize_single_title_heading:
  "(\<exists>k. headings (normalize unescape text title_override) =
         take k (map shift_tag (headings text)) @ [h1_open, h1_close] @ drop k (map shift_tag (headings text))) \<and>
   list_all (\<lambda>t. 2 \<le> level t \<and> level t \<le> 6) (map shift_tag (headings text)) \<and>
   length (filter (\<lambda>t. level t = 1 \<and> \<not> closing t) (headings (normalize unescape text title_override))) = 1 \<and>
   length (filter (\<lambda>t. level t = 1 \<and> closing t) (headings (normalize unescape text title_override))) = 1"
proof -
  let ?old = "map shift_tag (headings text)"
  let ?out = "headings (normalize unescape text title_override)"
  obtain k where k: "?out = take k ?old @ [h1_open, h1_close] @ drop k ?old"
    using headings_normalize by blast
  have l: "list_all (\<lambda>t. 2 \<le> level t \<and> level t \<le> 6) ?old" by (rule shifted_levels)
  then have n: "\<And>P. filter (\<lambda>t. level t = 1 \<and> P t) ?old = []"
    by (intro filter_none) (auto simp: list_all_iff)
  have tk: "\<And>P. filter (\<lambda>t. level t = 1 \<and> P t) (take k ?old) = []"
  proof -
    fix P
    have "filter (\<lambda>t. level t = 1 \<and> P t) (take k ?old @ drop k ?old) = []"
      using n [of P] by simp
    then show "filter (\<lambda>t. level t = 1 \<and> P t) (take k ?old) = []"
      unfolding filter_append by simp
  qed
  have dk: "\<And>P. filter (\<lambda>t. level t = 1 \<and> P t) (drop k ?old) = []"
  proof -
    fix P
    have "filter (\<lambda>t. level t = 1 \<and> P t) (take k ?old @ drop k ?old) = []"
      using n [of P] by simp
    then show "filter (\<lambda>t. level t = 1 \<and> P t) (drop k ?old) = []"
      unfolding filter_append by simp
  qed
  have o: "length (filter (\<lambda>t. level t = 1 \<and> \<not> closing t) ?out) = 1"
    unfolding k filter_append tk dk by (simp add: h1_open_def h1_close_def)
  have c: "length (filter (\<lambda>t. level t = 1 \<and> closing t) ?out) = 1"
    unfolding k filter_append tk dk by (simp add: h1_open_def h1_close_def)
  from k l o c show ?thesis by blast
qed

text \<open>
  C2. Every heading tag that \<open>shift_headings\<close> matches (opening or closing, levels 1 to 6,
  in any case) is written out again with the level \<open>min (level + 1) 6\<close>, so that levels 5
  and 6 both give 6; an opening tag keeps its attribute text as it is, a closing tag has
  none. Read with the same pattern, the tags of the output are the tags of the input, in
  order, each one shifted.
\<close>

theorem shift_headings_tags:
  "headings (shift_headings s) = map shift_tag (headings s) \<and>
   (\<forall>g rest. match_heading s = Some (g, rest) \<longrightarrow>
      shift_headings s = emit_tag (shift_tag (tag_of g)) @ shift_headings rest) \<and>
   level (shift_tag t) = min (level t + 1) 6 \<and>
   attrs (shift_tag t) = (if closing t then [] else attrs t) \<and>
   closing (shift_tag t) = closing t"
proof -
  have "\<forall>g rest. match_heading s = Some (g, rest) \<longrightarrow>
      shift_headings s = emit_tag (shift_tag (tag_of g)) @ shift_headings rest"
    using replacement_emit by (auto simp: shift_headings_Some)
  then show ?thesis by (simp add: headings_shift shift_tag_def)
qed

theorem shift_headings_tags_witness:
  "match_heading (ustr ''</H5 x>y'') = Some (([47], 53, ustr '' x''), ustr ''y'') \<and>
   shift_headings (ustr ''</H5 x>y'') = ustr ''</h6>y'' \<and>
   headings (ustr ''</H5 x>y'') = [\<lparr>closing = True, level = 5, attrs = ustr '' x''\<rparr>] \<and>
   headings (ustr ''</h6>y'') = [\<lparr>closing = True, level = 6, attrs = []\<rparr>]"
proof -
  have m: "match_heading (ustr ''</H5 x>y'') = Some (([47], 53, ustr '' x''), ustr ''y'')"
    by (simp add: eval_defs)
  have y: "shift_headings [121] = [121]"
    by (simp add: eval_defs)
  have h: "headings (ustr ''</H5 x>y'') = [\<lparr>closing = True, level = 5, attrs = ustr '' x''\<rparr>]"
    by (simp add: eval_defs)
  note t = shift_headings_tags [of "ustr ''</H5 x>y''"]
  from t m have "shift_headings (ustr ''</H5 x>y'') =
          emit_tag (shift_tag (tag_of ([47], 53, ustr '' x''))) @ shift_headings (ustr ''y'')"
    by blast
  then have s: "shift_headings (ustr ''</H5 x>y'') = ustr ''</h6>y''"
    by (simp add: y emit_tag_def str_of_nat.simps ustr_def tag_of_def shift_tag_def int_of_digit_def)
  from t h s have "headings (ustr ''</h6>y'') = [\<lparr>closing = True, level = 6, attrs = []\<rparr>]"
    by (simp add: shift_tag_def)
  with m s h show ?thesis by simp
qed

text \<open>
  C3. The claim is that a supplied override always gives \<open>clean_title\<close> of the override,
  and that otherwise the first title element and then the first \<^verbatim>\<open><h1>\<close> element give the
  title. An empty override does not: line 64 tests \<^verbatim>\<open>if title_override\<close>, and the title then
  comes from the document. A title element with attributes is not found, and an empty one is
  passed over for a later one. The \<^verbatim>\<open><h1>\<close> pattern also takes \<^verbatim>\<open><h10>\<close>.
\<close>

theorem empty_override_counterexample:
  "resolve_title (\<lambda>s. s) (ustr ''<h1>A</h1>'') (Some []) = ustr ''A'' \<and>
   clean_title [] = ustr ''Untitled'' \<and>
   resolve_title (\<lambda>s. s) (ustr ''<h1>A</h1>'') (Some []) \<noteq> clean_title [] \<and>
   resolve_title (\<lambda>s. s) (ustr ''<title a>X</title><h1>Y</h1>'') None = ustr ''Y'' \<and>
   resolve_title (\<lambda>s. s) (ustr ''<title></title><title>X</title><h1>H</h1>'') None = ustr ''X'' \<and>
   resolve_title (\<lambda>s. s) (ustr ''<h10>a</h10><h1>b</h1>'') None = ustr ''ab''"
  by (simp add: eval_defs)

text \<open>
  C3, as amended. The title follows this order. A non-empty override gives \<open>clean_title\<close>
  of the override. With no override, or an empty one: the content of the first match of the
  title pattern (\<^verbatim>\<open><title>\<close> in any case and without attributes, a non-empty content without
  \<^verbatim>\<open><\<close>, then \<^verbatim>\<open></title>\<close>), unescaped, stripped and cleaned, when that is not \<^verbatim>\<open>Untitled\<close> (it is
  never empty). Otherwise, when the first match of the \<^verbatim>\<open><h1>\<close> pattern (\<^verbatim>\<open><h1\<close> in any case,
  attribute text up to the first \<^verbatim>\<open>>\<close>, the content up to the first \<^verbatim>\<open></h1>\<close>) opens with a tag
  named \<^verbatim>\<open>h1\<close>: its content with the tags removed (every \<^verbatim>\<open><\<close>, one or more characters
  other than \<^verbatim>\<open>>\<close>, and \<^verbatim>\<open>>\<close>), stripped and not cleaned. Otherwise, when the document has no
  match of the \<^verbatim>\<open><h1>\<close> pattern, \<^verbatim>\<open>Untitled\<close>.
\<close>

theorem resolve_title_precedence:
  "(\<forall>t. title_override = Some t \<and> t \<noteq> [] \<longrightarrow>
      resolve_title unescape text title_override = clean_title t) \<and>
   (\<forall>pre g. (title_override = None \<or> title_override = Some []) \<and>
      first_title text pre g \<and> clean_title (strip (unescape g)) \<noteq> ustr ''Untitled'' \<longrightarrow>
      resolve_title unescape text title_override = clean_title (strip (unescape g))) \<and>
   (\<forall>pre a g. (title_override = None \<or> title_override = Some []) \<and>
      ((\<forall>p t. \<not> title_match text p t) \<or>
       (\<exists>p t. first_title text p t \<and> clean_title (strip (unescape t)) = ustr ''Untitled'')) \<and>
      first_h1 text pre a g \<and> name_ends a \<longrightarrow>
      resolve_title unescape text title_override = strip (strip_tags g)) \<and>
   ((title_override = None \<or> title_override = Some []) \<and>
      ((\<forall>p t. \<not> title_match text p t) \<or>
       (\<exists>p t. first_title text p t \<and> clean_title (strip (unescape t)) = ustr ''Untitled'')) \<and>
      (\<forall>pre a g. \<not> h1_match text pre a g) \<longrightarrow>
      resolve_title unescape text title_override = ustr ''Untitled'') \<and>
   clean_title x \<noteq> []"
proof -
  have a: "title_override = None \<or> title_override = Some [] \<Longrightarrow>
      resolve_title unescape text title_override = extract_title unescape text"
    by (auto simp: resolve_title_def)
  have 1: "\<forall>t. title_override = Some t \<and> t \<noteq> [] \<longrightarrow>
      resolve_title unescape text title_override = clean_title t"
    by (simp add: resolve_title_def)
  have 2: "\<forall>pre g. (title_override = None \<or> title_override = Some []) \<and>
      first_title text pre g \<and> clean_title (strip (unescape g)) \<noteq> ustr ''Untitled'' \<longrightarrow>
      resolve_title unescape text title_override = clean_title (strip (unescape g))"
    using a by (auto simp: first_title_iff extract_title_def Let_def clean_title_nonempty)
  have f: "(\<forall>p t. \<not> title_match text p t) \<or>
       (\<exists>p t. first_title text p t \<and> clean_title (strip (unescape t)) = ustr ''Untitled'')
       \<Longrightarrow> extract_title unescape text = h1_fallback text"
    unfolding no_title_iff first_title_iff by (auto simp: extract_title_def Let_def)
  have 3: "\<forall>pre a g. (title_override = None \<or> title_override = Some []) \<and>
      ((\<forall>p t. \<not> title_match text p t) \<or>
       (\<exists>p t. first_title text p t \<and> clean_title (strip (unescape t)) = ustr ''Untitled'')) \<and>
      first_h1 text pre a g \<and> name_ends a \<longrightarrow>
      resolve_title unescape text title_override = strip (strip_tags g)"
  proof (intro allI impI)
    fix pre a g
    assume h: "(title_override = None \<or> title_override = Some []) \<and>
      ((\<forall>p t. \<not> title_match text p t) \<or>
       (\<exists>p t. first_title text p t \<and> clean_title (strip (unescape t)) = ustr ''Untitled'')) \<and>
      first_h1 text pre a g \<and> name_ends a"
    then have "re_search match_h1 text = Some (pre, g)" by (blast dest: first_h1D)
    then have "h1_fallback text = strip (strip_tags g)" by (simp add: h1_fallback_def)
    with h a f show "resolve_title unescape text title_override = strip (strip_tags g)" by metis
  qed
  have 4: "(title_override = None \<or> title_override = Some []) \<and>
      ((\<forall>p t. \<not> title_match text p t) \<or>
       (\<exists>p t. first_title text p t \<and> clean_title (strip (unescape t)) = ustr ''Untitled'')) \<and>
      (\<forall>pre a g. \<not> h1_match text pre a g) \<longrightarrow>
      resolve_title unescape text title_override = ustr ''Untitled''"
  proof (intro impI)
    assume h: "(title_override = None \<or> title_override = Some []) \<and>
      ((\<forall>p t. \<not> title_match text p t) \<or>
       (\<exists>p t. first_title text p t \<and> clean_title (strip (unescape t)) = ustr ''Untitled'')) \<and>
      (\<forall>pre a g. \<not> h1_match text pre a g)"
    then have "re_search match_h1 text = None" by (simp add: no_h1_iff)
    then have "h1_fallback text = ustr ''Untitled''" by (simp add: h1_fallback_def)
    with h a f show "resolve_title unescape text title_override = ustr ''Untitled''" by metis
  qed
  show ?thesis by (intro conjI 1 2 3 4 clean_title_nonempty)
qed

theorem resolve_title_precedence_witness:
  "resolve_title (\<lambda>s. s) (ustr ''<title>T</title>'') (Some (ustr ''C - I'')) = ustr ''C'' \<and>
   resolve_title (\<lambda>s. s) (ustr ''<title>T | S</title><h1>H</h1>'') None = ustr ''T'' \<and>
   resolve_title (\<lambda>s. s) (ustr ''<title> - S</title><h1 id=x><b>H</b> - S</h1>'') None = ustr ''H - S'' \<and>
   resolve_title (\<lambda>s. s) (ustr ''<p>x</p>'') None = ustr ''Untitled''"
proof -
  have c1: "clean_title (ustr ''C - I'') = ustr ''C''" by (simp add: eval_defs)
  have n1: "ustr ''C - I'' \<noteq> []" by (simp add: ustr_def)
  from resolve_title_precedence [of "Some (ustr ''C - I'')" "\<lambda>s. s" "ustr ''<title>T</title>''"] n1
  have r1: "resolve_title (\<lambda>s. s) (ustr ''<title>T</title>'') (Some (ustr ''C - I'')) = clean_title (ustr ''C - I'')"
    by blast
  have "re_search match_title (ustr ''<title>T | S</title><h1>H</h1>'') = Some ([], ustr ''T | S'')"
    by (simp add: eval_defs)
  then have m2: "first_title (ustr ''<title>T | S</title><h1>H</h1>'') [] (ustr ''T | S'')"
    by (simp only: first_title_iff)
  have c2: "clean_title (strip (ustr ''T | S'')) = ustr ''T''" by (simp add: eval_defs)
  have u2: "ustr ''T'' \<noteq> ustr ''Untitled''" by (simp add: ustr_def)
  from c2 u2 have ne2: "clean_title (strip (ustr ''T | S'')) \<noteq> ustr ''Untitled''" by simp
  from resolve_title_precedence [of None "\<lambda>s. s" "ustr ''<title>T | S</title><h1>H</h1>''"] m2 ne2
  have r2: "resolve_title (\<lambda>s. s) (ustr ''<title>T | S</title><h1>H</h1>'') None = clean_title (strip (ustr ''T | S''))"
    by blast
  let ?d3 = "ustr ''<title> - S</title><h1 id=x><b>H</b> - S</h1>''"
  have "re_search match_title ?d3 = Some ([], ustr '' - S'')"
    by (simp add: eval_defs)
  then have m3: "first_title ?d3 [] (ustr '' - S'')" by (simp only: first_title_iff)
  have c3: "clean_title (strip (ustr '' - S'')) = ustr ''Untitled''" by (simp add: eval_defs)
  have "re_search match_h1 ?d3 = Some (ustr ''<title> - S</title>'', ustr ''<b>H</b> - S'')"
    by (simp add: eval_defs)
  from first_h1I [OF this]
  have h3: "first_h1 ?d3 (ustr ''<title> - S</title>'') (ustr '' id=x'') (ustr ''<b>H</b> - S'')"
    by (simp add: ustr_def)
  have e3: "name_ends (ustr '' id=x'')" by (simp add: name_ends_def ustr_def)
  have s3: "strip (strip_tags (ustr ''<b>H</b> - S'')) = ustr ''H - S''" by (simp add: eval_defs)
  from m3 c3 have t3: "\<exists>p t. first_title ?d3 p t \<and> clean_title (strip t) = ustr ''Untitled''" by blast
  from resolve_title_precedence [of None "\<lambda>s. s" ?d3] t3 h3 e3
  have r3: "resolve_title (\<lambda>s. s) ?d3 None = strip (strip_tags (ustr ''<b>H</b> - S''))"
    by blast
  have "re_search match_title (ustr ''<p>x</p>'') = None" by (simp add: eval_defs)
  then have m4: "\<forall>p t. \<not> title_match (ustr ''<p>x</p>'') p t" by (simp only: no_title_iff)
  have "re_search match_h1 (ustr ''<p>x</p>'') = None" by (simp add: eval_defs)
  then have h4: "\<forall>pre a g. \<not> h1_match (ustr ''<p>x</p>'') pre a g" by (simp only: no_h1_iff)
  from resolve_title_precedence [of None "\<lambda>s. s" "ustr ''<p>x</p>''"] m4 h4
  have r4: "resolve_title (\<lambda>s. s) (ustr ''<p>x</p>'') None = ustr ''Untitled''"
    by blast
  from r1 r2 r3 r4 show ?thesis by (simp only: c1 c2 s3)
qed



text \<open>
  C5. The claim is that the resolved title is never empty. The override and the title tag
  go through \<open>clean_title\<close>, which never returns the empty string, but the first
  \<^verbatim>\<open><h1>\<close> element is returned as it is after stripping: for a document whose first
  \<^verbatim>\<open><h1>\<close> holds no text (nothing, or only an image) the title is empty.
\<close>

theorem h1_title_can_be_empty:
  "resolve_title unescape (ustr ''<h1></h1>'') None = [] \<and>
   resolve_title unescape (ustr ''<h1><img></h1>'') None = [] \<and>
   normalize unescape (ustr ''<h1></h1>'') None = ustr ''<h1></h1>'' @ [10] @ ustr ''<h2></h2>'' \<and>
   clean_title t \<noteq> []"
proof -
  have "resolve_title unescape (ustr ''<h1></h1>'') None = []" by (simp add: eval_defs)
  moreover have "resolve_title unescape (ustr ''<h1><img></h1>'') None = []" by (simp add: eval_defs)
  moreover have "normalize unescape (ustr ''<h1></h1>'') None = ustr ''<h1></h1>'' @ [10] @ ustr ''<h2></h2>''"
    by (simp add: eval_defs)
  moreover have "clean_title t \<noteq> []" by (simp add: clean_title_def Let_def ustr_def)
  ultimately show ?thesis by simp
qed

text \<open>
  C6. The claim is that \<open>clean_title\<close> returns a string without a separator unchanged. It
  does not: line 59 strips the result, so \<^verbatim>\<open>" a"\<close> becomes \<^verbatim>\<open>"a"\<close>.
\<close>

theorem clean_title_counterexample:
  "\<not> has_separator (ustr '' a'') \<and> clean_title (ustr '' a'') \<noteq> ustr '' a''"
  by (simp add: eval_defs)

text \<open>
  C6, as amended. For a string without an occurrence of the separator pattern,
  \<open>clean_title\<close> returns the string stripped of leading and trailing whitespace, or
  \<^verbatim>\<open>Untitled\<close> when nothing is left; it is the identity on such a string when the string is
  not empty and neither starts nor ends with whitespace. \<open>clean_title\<close> of the empty string
  is \<^verbatim>\<open>Untitled\<close>.
\<close>

theorem clean_title_without_separator:
  "(\<not> has_separator s \<longrightarrow> clean_title s = (if strip s = [] then ustr ''Untitled'' else strip s)) \<and>
   (\<not> has_separator s \<and> s \<noteq> [] \<and> \<not> is_space (hd s) \<and> \<not> is_space (last s) \<longrightarrow> clean_title s = s) \<and>
   clean_title [] = ustr ''Untitled'' \<and>
   (has_separator s \<longleftrightarrow> (\<exists>p c w r. s = p @ c # w # r \<and> is_sep c \<and> is_space w))"
proof -
  have a: "\<not> has_separator s \<Longrightarrow> clean_title s = (if strip s = [] then ustr ''Untitled'' else strip s)"
    by (cases "re_search match_sep s") (auto simp: has_separator_def clean_title_def split_first_def)
  have 1: "\<not> has_separator s \<longrightarrow> clean_title s = (if strip s = [] then ustr ''Untitled'' else strip s)"
    using a by blast
  have 2: "\<not> has_separator s \<and> s \<noteq> [] \<and> \<not> is_space (hd s) \<and> \<not> is_space (last s) \<longrightarrow> clean_title s = s"
    using a strip_id [of s] by auto
  have 3: "clean_title [] = ustr ''Untitled''"
    by (simp add: clean_title_def split_first_def match_sep_def strip_def)
  show ?thesis by (intro conjI 1 2 3 has_separator_iff)
qed

theorem clean_title_without_separator_witness:
  "\<not> has_separator (ustr '' a b '') \<and> clean_title (ustr '' a b '') = ustr ''a b'' \<and>
   \<not> has_separator (ustr ''a-b'') \<and> clean_title (ustr ''a-b'') = ustr ''a-b''"
proof -
  have n1: "\<not> has_separator (ustr '' a b '')" by (simp add: eval_defs)
  have s1: "strip (ustr '' a b '') = ustr ''a b''" by (simp add: eval_defs)
  have n2: "\<not> has_separator (ustr ''a-b'')" by (simp add: eval_defs)
  have e2: "ustr ''a-b'' \<noteq> [] \<and> \<not> is_space (hd (ustr ''a-b'')) \<and> \<not> is_space (last (ustr ''a-b''))"
    by (simp add: eval_defs)
  from clean_title_without_separator [of "ustr '' a b ''"] n1 s1
  have "clean_title (ustr '' a b '') = ustr ''a b''" by (simp add: ustr_def)
  moreover from clean_title_without_separator [of "ustr ''a-b''"] n2 e2
  have "clean_title (ustr ''a-b'') = ustr ''a-b''" by blast
  ultimately show ?thesis using n1 n2 by simp
qed

text \<open>
  C7. The claim is that \<open>shift_headings\<close> changes nothing outside the tags named
  \<^verbatim>\<open>h1\<close> to \<^verbatim>\<open>h6\<close>. The pattern of line 51 does not ask where the tag name ends:
  \<^verbatim>\<open><h2-card>x</h2-card>\<close> holds no tag named \<^verbatim>\<open>h1\<close> to \<^verbatim>\<open>h6\<close> at any place, yet both its tags
  are matched and the output is \<^verbatim>\<open><h3-card>x</h3>\<close>; \<^verbatim>\<open><h10>\<close> becomes \<^verbatim>\<open><h20>\<close>.
\<close>

theorem shift_headings_changes_other_tags:
  "all_suffixes (\<lambda>q. case match_heading q of None \<Rightarrow> True | Some ((g1, g2, g3), rest) \<Rightarrow> \<not> name_ends g3)
      (ustr ''<h2-card>x</h2-card>'') \<and>
   shift_headings (ustr ''<h2-card>x</h2-card>'') = ustr ''<h3-card>x</h3>'' \<and>
   shift_headings (ustr ''<h2-card>x</h2-card>'') \<noteq> ustr ''<h2-card>x</h2-card>'' \<and>
   shift_headings (ustr ''<h10>'') = ustr ''<h20>''"
  by (simp add: eval_defs name_ends_def)

text \<open>
  C8. \<open>normalize\<close> is not idempotent. On \<^verbatim>\<open><body><h1>A</h1>\<close> the second application
  shifts the inserted title and the already shifted heading once more and inserts a second
  title element. For every document the second application adds two more heading tags, so
  its result is never the result of the first.
\<close>

theorem normalize_not_idempotent:
  "normalize unescape (ustr ''<body><h1>A</h1>'') None
      = ustr ''<body>'' @ [10] @ ustr ''<h1>A</h1>'' @ [10] @ ustr ''<h2>A</h2>'' \<and>
   normalize unescape (normalize unescape (ustr ''<body><h1>A</h1>'') None) None
      = ustr ''<body>'' @ [10] @ ustr ''<h1>A</h1>'' @ [10, 10] @ ustr ''<h2>A</h2>'' @ [10] @ ustr ''<h3>A</h3>'' \<and>
   normalize unescape (normalize unescape (ustr ''<body><h1>A</h1>'') None) None
      \<noteq> normalize unescape (ustr ''<body><h1>A</h1>'') None \<and>
   normalize unescape (normalize unescape text title_override) title_override'
      \<noteq> normalize unescape text title_override \<and>
   length (headings (normalize unescape (normalize unescape text title_override) title_override'))
      = length (headings (normalize unescape text title_override)) + 2"
proof -
  have 1: "normalize unescape (ustr ''<body><h1>A</h1>'') None
      = ustr ''<body>'' @ [10] @ ustr ''<h1>A</h1>'' @ [10] @ ustr ''<h2>A</h2>''"
    by (simp add: eval_defs)
  have 2: "normalize unescape (ustr ''<body>'' @ [10] @ ustr ''<h1>A</h1>'' @ [10] @ ustr ''<h2>A</h2>'') None
      = ustr ''<body>'' @ [10] @ ustr ''<h1>A</h1>'' @ [10, 10] @ ustr ''<h2>A</h2>'' @ [10] @ ustr ''<h3>A</h3>''"
    by (simp add: eval_defs)
  have 3: "\<And>d v w. normalize unescape (normalize unescape d v) w \<noteq> normalize unescape d v"
  proof
    fix d v w
    assume "normalize unescape (normalize unescape d v) w = normalize unescape d v"
    then have "length (headings (normalize unescape (normalize unescape d v) w))
      = length (headings (normalize unescape d v))" by simp
    then show False by (simp add: length_headings_normalize)
  qed
  from 1 2 3 [of "text" title_override title_override'] 3 [of "ustr ''<body><h1>A</h1>''" None None]
  show ?thesis
    by (simp only: length_headings_normalize) simp
qed

text \<open>
  C9. An empty string as title override is treated as no override: \<open>normalize\<close> then
  takes the title from the document (for \<^verbatim>\<open><h1>A</h1>\<close> it is \<^verbatim>\<open>A\<close>), not
  \<open>clean_title\<close> of the empty string, which is \<^verbatim>\<open>Untitled\<close>.
\<close>

theorem empty_override_is_absent:
  "normalize unescape text (Some []) = normalize unescape text None \<and>
   resolve_title unescape text (Some []) = extract_title unescape text \<and>
   resolve_title unescape (ustr ''<h1>A</h1>'') (Some []) = ustr ''A'' \<and>
   clean_title [] = ustr ''Untitled''"
proof -
  have "extract_title unescape (ustr ''<h1>A</h1>'') = ustr ''A''" by (simp add: eval_defs)
  moreover have "clean_title [] = ustr ''Untitled''" by (simp add: eval_defs)
  ultimately show ?thesis by (simp add: normalize_def resolve_title_def)
qed

text \<open>
  C10. The title pattern finds a title element only in the form \<^verbatim>\<open><title>\<close> (in any case,
  no attributes), a non-empty content without \<^verbatim>\<open><\<close>, and \<^verbatim>\<open></title>\<close>. In a document where
  every \<^verbatim>\<open><title>\<close> without attributes is followed at once by \<^verbatim>\<open><\<close> or by the end of the
  text (so also where every title tag has attributes), the pattern finds nothing and
  \<open>extract_title\<close> returns what the \<^verbatim>\<open><h1>\<close> fallback returns.
\<close>

theorem title_tag_strict:
  "(\<forall>pre g. re_search match_title text = Some (pre, g) \<longrightarrow>
      (\<exists>ot ct rest. text = pre @ ot @ g @ ct @ rest \<and> list_all2 ci_match (ustr ''<title>'') ot \<and>
         list_all2 ci_match (ustr ''</title>'') ct \<and> g \<noteq> [] \<and> 60 \<notin> set g)) \<and>
   ((\<forall>p ot r. text = p @ ot @ r \<and> list_all2 ci_match (ustr ''<title>'') ot \<longrightarrow> r = [] \<or> hd r = 60) \<longrightarrow>
      re_search match_title text = None \<and> extract_title unescape text = h1_fallback text)"
proof (intro conjI allI impI)
  fix pre g assume "re_search match_title text = Some (pre, g)"
  then show "\<exists>ot ct rest. text = pre @ ot @ g @ ct @ rest \<and> list_all2 ci_match (ustr ''<title>'') ot \<and>
         list_all2 ci_match (ustr ''</title>'') ct \<and> g \<noteq> [] \<and> 60 \<notin> set g"
    by (rule title_search_SomeD)
next
  assume a: "\<forall>p ot r. text = p @ ot @ r \<and> list_all2 ci_match (ustr ''<title>'') ot \<longrightarrow> r = [] \<or> hd r = 60"
  show n: "re_search match_title text = None"
  proof (cases "re_search match_title text")
    case (Some x)
    obtain pre g where "x = (pre, g)" by (cases x) auto
    with Some title_search_SomeD obtain o' c rest where t: "text = pre @ o' @ g @ c @ rest"
      "list_all2 ci_match (ustr ''<title>'') o'" "g \<noteq> []" "60 \<notin> set g" by blast
    with a have "g @ c @ rest = [] \<or> hd (g @ c @ rest) = 60" by blast
    with t(3,4) show ?thesis by (cases g) auto
  qed simp
  show "extract_title unescape text = h1_fallback text"
    using n by (simp add: extract_title_def)
qed

theorem title_tag_strict_witness:
  "re_search match_title (ustr ''<TITLE>X</title>'') = Some ([], ustr ''X'') \<and>
   (\<exists>ot ct rest. ustr ''<TITLE>X</title>'' = [] @ ot @ ustr ''X'' @ ct @ rest \<and>
       list_all2 ci_match (ustr ''<title>'') ot \<and> list_all2 ci_match (ustr ''</title>'') ct) \<and>
   extract_title (\<lambda>s. s) (ustr ''<title a>X</title><h1>Y</h1>'') = ustr ''Y'' \<and>
   extract_title (\<lambda>s. s) (ustr ''<title></title><h1>Y</h1>'') = ustr ''Y''"
proof -
  have m: "re_search match_title (ustr ''<TITLE>X</title>'') = Some ([], ustr ''X'')"
    by (simp add: eval_defs)
  from title_tag_strict [of "ustr ''<TITLE>X</title>''"] m
  have e: "\<exists>ot ct rest. ustr ''<TITLE>X</title>'' = [] @ ot @ ustr ''X'' @ ct @ rest \<and>
       list_all2 ci_match (ustr ''<title>'') ot \<and> list_all2 ci_match (ustr ''</title>'') ct"
    by blast
  have a: "\<forall>p ot r. ustr ''<title a>X</title><h1>Y</h1>'' = p @ ot @ r \<and> list_all2 ci_match (ustr ''<title>'') ot
       \<longrightarrow> r = [] \<or> hd r = 60"
    unfolding after_literal by (simp add: eval_defs)
  have f: "h1_fallback (ustr ''<title a>X</title><h1>Y</h1>'') = ustr ''Y''" by (simp add: eval_defs)
  from title_tag_strict [of "ustr ''<title a>X</title><h1>Y</h1>''" "\<lambda>s. s"] a f
  have x: "extract_title (\<lambda>s. s) (ustr ''<title a>X</title><h1>Y</h1>'') = ustr ''Y''" by simp
  have b: "\<forall>p ot r. ustr ''<title></title><h1>Y</h1>'' = p @ ot @ r \<and> list_all2 ci_match (ustr ''<title>'') ot
       \<longrightarrow> r = [] \<or> hd r = 60"
    unfolding after_literal by (simp add: eval_defs)
  have g: "h1_fallback (ustr ''<title></title><h1>Y</h1>'') = ustr ''Y''" by (simp add: eval_defs)
  from title_tag_strict [of "ustr ''<title></title><h1>Y</h1>''" "\<lambda>s. s"] b g
  have y: "extract_title (\<lambda>s. s) (ustr ''<title></title><h1>Y</h1>'') = ustr ''Y''" by simp
  from m e x y show ?thesis by blast
qed

end
